theory Spec2Isabelle
  imports Main "HOL-Library.Sublist"
begin

section \<open>Python values used by the script\<close>

text \<open>
  The script \<^verbatim>\<open>oxford_lieder_2021-extract_concert_ticket_details.py\<close> works on Python
  \<^verbatim>\<open>str\<close> values. A \<^typ>\<open>char\<close> stands for one code point below 256 (the Latin-1 range,
  which holds the pound sign U+00A3 the script removes from prices), so \<^typ>\<open>string\<close> is a
  Python string over those code points and \<^const>\<open>length\<close> counts code points.

  Every exception the modelled code can raise is a value of \<open>error\<close>, and a function that
  can raise returns \<open>error + 'a\<close> with \<open>Inl\<close> for the exception.
\<close>

datatype error =
    AttributeError
  | IndexError
  | KeyError string
  | OverflowError
  | TypeError
  | ValueError

text \<open>\<^verbatim>\<open>str.isspace\<close> on one code point below 256: TAB..CR, FS..US, space, NEL, NBSP.\<close>

definition isspace :: "char \<Rightarrow> bool" where
  "isspace c =
     (let n = (of_char c :: nat)
      in (9 \<le> n \<and> n \<le> 13) \<or> (28 \<le> n \<and> n \<le> 32) \<or> n = 133 \<or> n = 160)"

text \<open>\<^verbatim>\<open>str.strip()\<close>: drop leading and trailing whitespace.\<close>

definition lstrip :: "string \<Rightarrow> string" where
  "lstrip s = dropWhile isspace s"

definition rstrip :: "string \<Rightarrow> string" where
  "rstrip s = rev (dropWhile isspace (rev s))"

definition strip :: "string \<Rightarrow> string" where
  "strip s = rstrip (lstrip s)"

text \<open>
  \<^verbatim>\<open>str.lower()\<close> on one code point below 256: the ASCII capitals and the Latin-1
  capitals U+00C0..U+00DE except the multiplication sign U+00D7 move up by 32.
\<close>

definition lower_char :: "char \<Rightarrow> char" where
  "lower_char c =
     (let n = (of_char c :: nat)
      in if (65 \<le> n \<and> n \<le> 90) \<or> (192 \<le> n \<and> n \<le> 222 \<and> n \<noteq> 215)
         then char_of (n + 32) else c)"

definition lower :: "string \<Rightarrow> string" where
  "lower s = map lower_char s"

text \<open>\<^verbatim>\<open>pat in s\<close> for strings: \<open>pat\<close> occurs in \<open>s\<close> as a contiguous block.\<close>

fun contains :: "string \<Rightarrow> string \<Rightarrow> bool" where
  "contains pat [] = (pat = [])"
| "contains pat (c # cs) = (prefix pat (c # cs) \<or> contains pat cs)"

text \<open>\<^verbatim>\<open>s.split(sep)\<close> for a separator of one character; the result is never empty.\<close>

fun split_on :: "char \<Rightarrow> string \<Rightarrow> string list" where
  "split_on sep [] = [[]]"
| "split_on sep (c # cs) =
     (if c = sep then [] # split_on sep cs
      else (case split_on sep cs of
              [] \<Rightarrow> [[c]]
            | p # ps \<Rightarrow> (c # p) # ps))"

section \<open>Streaming flag\<close>

text \<open>
  \<^verbatim>\<open>
  def return_if_venue_has_streaming(venue_type: str) -> bool:
      return any(venue in venue_type.lower() for venue in ["stream"])
  \<close>
\<close>

definition return_if_venue_has_streaming :: "string \<Rightarrow> bool" where
  "return_if_venue_has_streaming venue_type =
     list_ex (\<lambda>venue. contains venue (lower venue_type)) [''stream'']"

text \<open>
  The property in the specification's words: some block of six consecutive characters of
  the venue type spells \<open>stream\<close> when the case of each letter is ignored.
\<close>

definition same_letter :: "char \<Rightarrow> char \<Rightarrow> bool" where
  "same_letter c d = (c = d \<or> (of_char c :: nat) + 32 = of_char d)"

definition mentions_stream :: "string \<Rightarrow> bool" where
  "mentions_stream s =
     (\<exists>pre mid post. s = pre @ mid @ post \<and> list_all2 same_letter mid ''stream'')"

section \<open>Price parsing: \<^verbatim>\<open>int(float(text))\<close>\<close>

text \<open>
  A Python \<^verbatim>\<open>float\<close> is an IEEE binary64 value. \<open>Finite neg m e\<close> is the value
  \<open>m \<cdot> 2\<^sup>e\<close>, negated when \<open>neg\<close> holds; the constructors for infinities and NaN are what
  \<^verbatim>\<open>float("inf")\<close> and \<^verbatim>\<open>float("nan")\<close> return.
\<close>

datatype pyfloat = Finite bool nat int | Infinity bool | NaN

definition is_digit :: "char \<Rightarrow> bool" where
  "is_digit c = (let n = (of_char c :: nat) in 48 \<le> n \<and> n \<le> 57)"

definition digit_val :: "char \<Rightarrow> nat" where
  "digit_val c = of_char c - 48"

definition nat_of_digits :: "string \<Rightarrow> nat" where
  "nat_of_digits ds = foldl (\<lambda>a c. 10 * a + digit_val c) 0 ds"

text \<open>Number of binary digits: \<open>2 ^ (bitlen n - 1) \<le> n < 2 ^ bitlen n\<close> for \<open>n > 0\<close>.\<close>

fun bitlen :: "nat \<Rightarrow> nat" where
  "bitlen n = (if n = 0 then 0 else Suc (bitlen (n div 2)))"

declare bitlen.simps [simp del]

text \<open>
  Round half to even of the quotient \<open>n / d\<close> (\<open>d > 0\<close>), the rounding of binary64.
\<close>

definition round_half_even :: "nat \<Rightarrow> nat \<Rightarrow> nat" where
  "round_half_even n d =
     (let q = n div d; r = n mod d
      in if 2 * r < d then q
         else if d < 2 * r then q + 1
         else if even q then q else q + 1)"

text \<open>
  The binary64 value nearest to the positive rational \<open>num / den\<close>: the exponent \<open>e\<close> is
  chosen so that the quotient by \<open>2\<^sup>e\<close> has 53 bits (or is subnormal, \<open>e = -1074\<close>), the
  quotient is rounded half to even, and a result of \<open>2 ^ 1024\<close> or more is an infinity.
\<close>

definition floor_log2 :: "nat \<Rightarrow> nat \<Rightarrow> int" where
  "floor_log2 num den =
     (let k = int (bitlen num) - int (bitlen den)
      in if (if 0 \<le> k then den * 2 ^ nat k \<le> num else den \<le> num * 2 ^ nat (- k))
         then k else k - 1)"

definition round_binary64 :: "bool \<Rightarrow> nat \<Rightarrow> nat \<Rightarrow> pyfloat" where
  "round_binary64 neg num den =
     (let e = max (floor_log2 num den - 52) (- 1074);
          m = (if 0 \<le> e then round_half_even num (den * 2 ^ nat e)
               else round_half_even (num * 2 ^ nat (- e)) den)
      in if 0 \<le> e \<and> 2 ^ 1024 \<le> m * 2 ^ nat e then Infinity neg else Finite neg m e)"

text \<open>
  Underscores in a numeric literal: each one must stand between two digits
  (the check of CPython's \<^verbatim>\<open>_Py_string_to_number_with_underscores\<close>); \<open>prev\<close> is the
  character before, NUL at the start.
\<close>

fun underscores_ok :: "char \<Rightarrow> string \<Rightarrow> bool" where
  "underscores_ok prev [] = (prev \<noteq> CHR ''_'')"
| "underscores_ok prev (c # cs) =
     (if c = CHR ''_'' then is_digit prev \<and> underscores_ok c cs
      else (prev = CHR ''_'' \<longrightarrow> is_digit c) \<and> underscores_ok c cs)"

text \<open>Optional sign at the head of a literal: whether it is negative, and the rest.\<close>

fun take_sign :: "string \<Rightarrow> bool \<times> string" where
  "take_sign [] = (False, [])"
| "take_sign (c # cs) =
     (if c = CHR ''-'' then (True, cs)
      else if c = CHR ''+'' then (False, cs)
      else (False, c # cs))"

text \<open>
  The exponent part after the mantissa: nothing, or \<open>e\<close>/\<open>E\<close>, an optional sign and at
  least one digit up to the end of the text.
\<close>

definition parse_exponent :: "string \<Rightarrow> int option" where
  "parse_exponent s =
     (case s of
        [] \<Rightarrow> Some 0
      | c # cs \<Rightarrow>
          if c = CHR ''e'' \<or> c = CHR ''E'' then
            (case take_sign cs of
               (neg, ds) \<Rightarrow>
                 if ds \<noteq> [] \<and> list_all is_digit ds
                 then Some (if neg then - int (nat_of_digits ds) else int (nat_of_digits ds))
                 else None)
          else None)"

text \<open>
  The whitespace that \<^verbatim>\<open>float()\<close> drops around its argument: CPython keeps the code points
  below 127 as they are and strips the ASCII whitespace TAB..CR and space; a code point from
  127 on that is a space (NEL, NBSP) is first replaced by a space. The separators FS..US
  are not dropped, unlike with \<^verbatim>\<open>str.strip()\<close>.
\<close>

definition float_isspace :: "char \<Rightarrow> bool" where
  "float_isspace c =
     (let n = (of_char c :: nat)
      in (9 \<le> n \<and> n \<le> 13) \<or> n = 32 \<or> n = 133 \<or> n = 160)"

definition float_strip :: "string \<Rightarrow> string" where
  "float_strip s = rev (dropWhile float_isspace (rev (dropWhile float_isspace s)))"

text \<open>
  \<^verbatim>\<open>float(s)\<close> for a string: surrounding whitespace is dropped, underscores are checked
  and removed, then the text is a sign followed by \<^verbatim>\<open>inf\<close>, \<^verbatim>\<open>infinity\<close> or
  \<^verbatim>\<open>nan\<close> (in any case) or by a decimal literal \<^verbatim>\<open>digits [. digits] [exponent]\<close> or
  \<^verbatim>\<open>. digits [exponent]\<close>; anything else raises \<^verbatim>\<open>ValueError\<close>. The decimal value
  \<open>M \<cdot> 10\<^sup>E\<close> is rounded to the nearest binary64 value.
\<close>

definition py_float :: "string \<Rightarrow> error + pyfloat" where
  "py_float text =
     (let s = float_strip text in
      if \<not> underscores_ok (CHR 0x00) s then Inl ValueError
      else
        (case take_sign (filter (\<lambda>c. c \<noteq> CHR ''_'') s) of
           (neg, body) \<Rightarrow>
             if lower body = ''inf'' \<or> lower body = ''infinity'' then Inr (Infinity neg)
             else if lower body = ''nan'' then Inr NaN
             else
               (let ip = takeWhile is_digit body;
                    r1 = dropWhile is_digit body;
                    fp = (case r1 of c # cs \<Rightarrow> if c = CHR ''.'' then takeWhile is_digit cs else []
                                   | [] \<Rightarrow> []);
                    r2 = (case r1 of c # cs \<Rightarrow> if c = CHR ''.'' then dropWhile is_digit cs else r1
                                   | [] \<Rightarrow> [])
                in if ip = [] \<and> fp = [] then Inl ValueError
                   else
                     (case parse_exponent r2 of
                        None \<Rightarrow> Inl ValueError
                      | Some ex \<Rightarrow>
                          (let M = nat_of_digits (ip @ fp);
                               E = ex - int (length fp)
                           in if M = 0 then Inr (Finite neg 0 0)
                              else if 0 \<le> E then Inr (round_binary64 neg (M * 10 ^ nat E) 1)
                              else Inr (round_binary64 neg M (10 ^ nat (- E))))))))"

text \<open>
  \<^verbatim>\<open>int(x)\<close> for a float: the integer part, rounded towards zero; an infinity raises
  \<^verbatim>\<open>OverflowError\<close> and NaN raises \<^verbatim>\<open>ValueError\<close>.
\<close>

fun py_int :: "pyfloat \<Rightarrow> error + int" where
  "py_int (Finite neg m e) =
     (let a = (if 0 \<le> e then int (m * 2 ^ nat e) else int (m div 2 ^ nat (- e)))
      in Inr (if neg then - a else a))"
| "py_int (Infinity neg) = Inl OverflowError"
| "py_int NaN = Inl ValueError"

text \<open>
  The price expression of \<^verbatim>\<open>extract_ticket_price_options\<close>:
  \<^verbatim>\<open>int(float(table_columns[1].text.strip().replace("\<pounds>", "")))\<close>, where the pound sign
  is the code point U+00A3.
\<close>

definition pound :: char where
  "pound = CHR 0xA3"

definition parse_price :: "string \<Rightarrow> error + int" where
  "parse_price text =
     (case py_float (filter (\<lambda>c. c \<noteq> pound) (strip text)) of
        Inl err \<Rightarrow> Inl err
      | Inr x \<Rightarrow> py_int x)"

section \<open>Ticket extractor\<close>

text \<open>
  A ticket table row (a \<^verbatim>\<open>tr\<close> element) is seen through the two queries
  \<^verbatim>\<open>extract_ticket_price_options\<close> makes on it: \<open>anchor_hrefs\<close> lists the \<^verbatim>\<open>href\<close>
  attribute of every \<^verbatim>\<open>a\<close> descendant that has one, in document order, and \<open>td_texts\<close>
  lists the \<^verbatim>\<open>.text\<close> of every \<^verbatim>\<open>td\<close> that \<^verbatim>\<open>row.find_all("td")\<close> returns.
\<close>

record row =
  anchor_hrefs :: "string list"
  td_texts :: "string list"

text \<open>
  The four ticket fields of \<^verbatim>\<open>TICKET_METADATA_COLUMNS\<close>, in the order of the dictionary.
  \<^verbatim>\<open>ticket_data\<close> holds one value per field; an entry of \<^verbatim>\<open>ticket_details\<close> holds one
  list per field.
\<close>

record ('s, 'b, 'i) ticket_fields =
  ticket_type :: 's
  venue_type :: 's
  is_streaming :: 'b
  ticket_price_gbp :: 'i

type_synonym ticket_data = "(string, bool, int) ticket_fields"

type_synonym ticket_lists = "(string list, bool list, int list) ticket_fields"

text \<open>
  \<^verbatim>\<open>ticket_details\<close> is a Python dictionary, which keeps its keys in insertion order:
  an association list with one pair per key.
\<close>

type_synonym ticket_details = "(string \<times> ticket_lists) list"

text \<open>\<^verbatim>\<open>row.select_one('a[href^="/event"]')\<close>, then \<^verbatim>\<open>["href"]\<close> of the match.\<close>

definition select_one_event :: "row \<Rightarrow> string option" where
  "select_one_event r = find (prefix ''/event'') (anchor_hrefs r)"

text \<open>
  The first half of the loop body, up to the price: cells 2 and 3 of the row
  (\<^verbatim>\<open>find_all("td")[2:4]\<close>); the first is stripped, split at newlines and exactly two
  pieces are unpacked (\<^verbatim>\<open>[0:2]\<close> keeps at most two, fewer raise \<^verbatim>\<open>ValueError\<close>);
  the second is the price. The errors come in the order Python evaluates the statements.
\<close>

definition row_ticket_data :: "row \<Rightarrow> error + ticket_data" where
  "row_ticket_data r =
     (let table_columns = drop 2 (take 4 (td_texts r)) in
      case table_columns of
        [] \<Rightarrow> Inl IndexError
      | c0 # rest \<Rightarrow>
          (case take 2 (split_on (CHR 0x0A) (strip c0)) of
             [tt, vt] \<Rightarrow>
               (case rest of
                  [] \<Rightarrow> Inl IndexError
                | c1 # _ \<Rightarrow>
                    (case parse_price c1 of
                       Inl err \<Rightarrow> Inl err
                     | Inr price \<Rightarrow>
                         Inr \<lparr>ticket_type = tt, venue_type = vt,
                              is_streaming = return_if_venue_has_streaming vt,
                              ticket_price_gbp = price\<rparr>))
           | _ \<Rightarrow> Inl ValueError))"

text \<open>
  \<^verbatim>\<open>ticket_details[key][attr] = [ticket_data[attr]]\<close> for every field, and
  \<^verbatim>\<open>ticket_details[key][attr].append(ticket_data[attr])\<close> for every field.
\<close>

definition seed_lists :: "ticket_data \<Rightarrow> ticket_lists" where
  "seed_lists d =
     \<lparr>ticket_type = [ticket_type d], venue_type = [venue_type d],
      is_streaming = [is_streaming d], ticket_price_gbp = [ticket_price_gbp d]\<rparr>"

definition append_lists :: "ticket_data \<Rightarrow> ticket_lists \<Rightarrow> ticket_lists" where
  "append_lists d l =
     \<lparr>ticket_type = ticket_type l @ [ticket_type d], venue_type = venue_type l @ [venue_type d],
      is_streaming = is_streaming l @ [is_streaming d],
      ticket_price_gbp = ticket_price_gbp l @ [ticket_price_gbp d]\<rparr>"

text \<open>Change the value stored under a key that is present, in place.\<close>

definition dict_modify :: "'k \<Rightarrow> ('v \<Rightarrow> 'v) \<Rightarrow> ('k \<times> 'v) list \<Rightarrow> ('k \<times> 'v) list" where
  "dict_modify k f d = map (\<lambda>(k', v). if k' = k then (k', f v) else (k', v)) d"

text \<open>
  One iteration of the loop on the state \<open>(ticket_details, last_event_url_key)\<close>:
  \<^verbatim>\<open>
  if event_url_key:
      event_url_key = event_url_key["href"]
      last_event_url_key = event_url_key
      if event_url_key not in ticket_details:
          ticket_details[event_url_key] = {}
          for ticket_attr in ticket_fields:
              ticket_details[event_url_key][ticket_attr] = [ticket_data[ticket_attr]]
      else:
          continue
  else:
      for ticket_attr in ticket_fields:
          ticket_details[last_event_url_key][ticket_attr].append(ticket_data[ticket_attr])
  \<close>
  A missing \<open>last_event_url_key\<close> raises \<^verbatim>\<open>KeyError\<close> at the first field.
\<close>

definition ticket_row_step ::
  "row \<Rightarrow> ticket_details \<times> string \<Rightarrow> error + ticket_details \<times> string" where
  "ticket_row_step r st =
     (case st of (ticket_details, last_event_url_key) \<Rightarrow>
        (case row_ticket_data r of
           Inl err \<Rightarrow> Inl err
         | Inr ticket_data \<Rightarrow>
             (case select_one_event r of
                Some event_url_key \<Rightarrow>
                  (case map_of ticket_details event_url_key of
                     None \<Rightarrow>
                       Inr (ticket_details @ [(event_url_key, seed_lists ticket_data)],
                            event_url_key)
                   | Some _ \<Rightarrow> Inr (ticket_details, event_url_key))
              | None \<Rightarrow>
                  (case map_of ticket_details last_event_url_key of
                     None \<Rightarrow> Inl (KeyError last_event_url_key)
                   | Some _ \<Rightarrow>
                       Inr (dict_modify last_event_url_key (append_lists ticket_data)
                              ticket_details,
                            last_event_url_key)))))"

fun ticket_rows_loop :: "row list \<Rightarrow> ticket_details \<times> string \<Rightarrow> error + ticket_details" where
  "ticket_rows_loop [] st = Inr (fst st)"
| "ticket_rows_loop (r # rs) st =
     (case ticket_row_step r st of
        Inl err \<Rightarrow> Inl err
      | Inr st' \<Rightarrow> ticket_rows_loop rs st')"

definition extract_ticket_price_options :: "row list \<Rightarrow> error + ticket_details" where
  "extract_ticket_price_options ticket_detail_list = ticket_rows_loop ticket_detail_list ([], [])"

subsection \<open>The grouping in the specification's words\<close>

text \<open>
  The specification describes the result key by key. A parsed row is its group key, if
  it has one, and its values. The rows that belong to key \<open>K\<close> are the first row that
  introduces \<open>K\<close> (the seed) and every continuation row for which \<open>K\<close> is the most recently
  seen key \<open>cur\<close>; a later row that introduces \<open>K\<close> again is skipped.
\<close>

fun seed_row :: "string \<Rightarrow> (string option \<times> 'a) list \<Rightarrow> 'a option" where
  "seed_row K [] = None"
| "seed_row K ((a, d) # rs) = (if a = Some K then Some d else seed_row K rs)"

fun continuations :: "string \<Rightarrow> string \<Rightarrow> (string option \<times> 'a) list \<Rightarrow> 'a list" where
  "continuations K cur [] = []"
| "continuations K cur ((None, d) # rs) =
     (if cur = K then d # continuations K cur rs else continuations K cur rs)"
| "continuations K cur ((Some k, d) # rs) = continuations K k rs"

definition group_rows :: "string \<Rightarrow> (string option \<times> 'a) list \<Rightarrow> 'a list option" where
  "group_rows K rs =
     (case seed_row K rs of
        None \<Rightarrow> None
      | Some d \<Rightarrow> Some (d # continuations K [] rs))"

definition lists_of :: "ticket_data list \<Rightarrow> ticket_lists" where
  "lists_of ds =
     \<lparr>ticket_type = map ticket_type ds, venue_type = map venue_type ds,
      is_streaming = map is_streaming ds, ticket_price_gbp = map ticket_price_gbp ds\<rparr>"

definition parsed_rows :: "row list \<Rightarrow> (string option \<times> ticket_data) list" where
  "parsed_rows rows = map (\<lambda>r. (select_one_event r, projr (row_ticket_data r))) rows"

text \<open>The four lists of an entry are aligned and not empty.\<close>

definition lists_aligned :: "ticket_lists \<Rightarrow> bool" where
  "lists_aligned l =
     (length (venue_type l) = length (ticket_type l)
      \<and> length (is_streaming l) = length (ticket_type l)
      \<and> length (ticket_price_gbp l) = length (ticket_type l)
      \<and> 1 \<le> length (ticket_type l))"

definition ticket_details_ok :: "ticket_details \<Rightarrow> bool" where
  "ticket_details_ok td = list_all (\<lambda>(k, l). lists_aligned l) td"

text \<open>Appending the values of several rows to the lists of an entry, in order.\<close>

definition extend_lists :: "ticket_lists \<Rightarrow> ticket_data list \<Rightarrow> ticket_lists" where
  "extend_lists l ds = foldl (\<lambda>acc d. append_lists d acc) l ds"

subsection \<open>Example rows\<close>

text \<open>
  Three rows of a ticket table: the first introduces \<^verbatim>\<open>/event/1\<close> at 10 pounds, the second
  is a continuation row at 5 pounds, the third introduces \<^verbatim>\<open>/event/2\<close> at 20 pounds.
\<close>

definition example_cell :: string where
  "example_cell = ''Standard'' @ [CHR 0x0A] @ ''In-person only''"

definition example_rows :: "row list" where
  "example_rows =
     [\<lparr>anchor_hrefs = [''/event/1''], td_texts = ['''', '''', example_cell, pound # ''10'']\<rparr>,
      \<lparr>anchor_hrefs = [], td_texts = ['''', '''', example_cell, pound # ''5'']\<rparr>,
      \<lparr>anchor_hrefs = [''/event/2''], td_texts = ['''', '''', example_cell, pound # ''20'']\<rparr>]"

section \<open>Export report of \<^verbatim>\<open>main\<close>\<close>

text \<open>\<^verbatim>\<open>str(n)\<close> for a natural number and \<^verbatim>\<open>sep.join(xs)\<close>.\<close>

fun str_nat :: "nat \<Rightarrow> string" where
  "str_nat n =
     (if n < 10 then [char_of (48 + n)]
      else str_nat (n div 10) @ [char_of (48 + n mod 10)])"

declare str_nat.simps [simp del]

fun join :: "string \<Rightarrow> string list \<Rightarrow> string" where
  "join sep [] = []"
| "join sep [x] = x"
| "join sep (x # y # ys) = x @ sep @ join sep (y # ys)"

definition EXPORT_FILE_BASE :: string where
  "EXPORT_FILE_BASE = ''oxford_lieder-2021-ticket_list''"

text \<open>
  The lines that the last block of \<^verbatim>\<open>main\<close> prints:
  \<^verbatim>\<open>
  try:
      export_csv = EXPORT_FILE_BASE + ".csv"
      merged_df.to_csv(export_csv, index=False)
      export_html = EXPORT_FILE_BASE + ".html"
      html_content = generate_event_html_content(generate_event_html_df(merged_df))
      with open(export_html, "w", encoding="utf-8") as out_file:
          out_file.write(html_content)
  except OSError as e:
      print(f"There was an error exporting {export_csv}: {e}")
  else:
      print(" ".join([f"CSV export succeeded [{num_rows} rows, {num_cols} columns]:",
                      os.path.abspath(export_csv)]))
      print(" ".join([f"HTML export succeeded [{num_rows} rows, {num_cols} columns]:",
                      os.path.abspath(export_html)]))
  \<close>
  The two writes are the inputs: \<open>csv_error\<close> and \<open>html_error\<close> are \<open>None\<close> when the write
  succeeds and \<open>Some\<close> of the text \<^verbatim>\<open>str(e)\<close> of the \<^verbatim>\<open>OSError\<close> it raises otherwise. The
  HTML file is written only after the CSV file has been. \<open>abspath\<close> is
  \<^verbatim>\<open>os.path.abspath\<close> in the working directory of the run.
\<close>

definition export_report ::
  "(string \<Rightarrow> string) \<Rightarrow> nat \<Rightarrow> nat \<Rightarrow> string option \<Rightarrow> string option \<Rightarrow> string list" where
  "export_report abspath num_rows num_cols csv_error html_error =
     (let export_csv = EXPORT_FILE_BASE @ ''.csv'';
          export_html = EXPORT_FILE_BASE @ ''.html''
      in case csv_error of
           Some e \<Rightarrow> [''There was an error exporting '' @ export_csv @ '': '' @ e]
         | None \<Rightarrow>
             (case html_error of
                Some e \<Rightarrow> [''There was an error exporting '' @ export_csv @ '': '' @ e]
              | None \<Rightarrow>
                  [join '' ''
                     [''CSV export succeeded ['' @ str_nat num_rows @ '' rows, ''
                        @ str_nat num_cols @ '' columns]:'',
                      abspath export_csv],
                   join '' ''
                     [''HTML export succeeded ['' @ str_nat num_rows @ '' rows, ''
                        @ str_nat num_cols @ '' columns]:'',
                      abspath export_html]]))"

section \<open>The data frames of \<^verbatim>\<open>main\<close>\<close>

text \<open>
  The names of the columns. The script holds them as the keys of two dictionaries, in
  this order.
\<close>

definition TICKET_METADATA_COLUMNS :: "string list" where
  "TICKET_METADATA_COLUMNS = [''ticket_type'', ''venue_type'', ''is_streaming'', ''ticket_price_gbp'']"

definition ALL_COLUMNS :: "string list" where
  "ALL_COLUMNS =
     [''date'', ''time'', ''title'', ''artists'', ''description'', ''venue'']
     @ TICKET_METADATA_COLUMNS
     @ [''interested'', ''categories'', ''short_url'', ''long_url'']"

definition EVENT_METADATA_COLUMNS :: "string list" where
  "EVENT_METADATA_COLUMNS =
     filter (\<lambda>column. column \<notin> set TICKET_METADATA_COLUMNS) ALL_COLUMNS"

text \<open>
  A row of the event frame is a record that \<^verbatim>\<open>extract_event_metadata\<close> returned: a string
  under every key of \<^verbatim>\<open>EVENT_METADATA_COLUMNS\<close>, except for the integer under
  \<^verbatim>\<open>interested\<close>.
\<close>

record event_record =
  date :: string
  time :: string
  title :: string
  artists :: string
  description :: string
  venue :: string
  interested :: int
  categories :: string
  short_url :: string
  long_url :: string

text \<open>
  The values in the cells of the ticket frame: strings, integers, booleans, and the
  \<^verbatim>\<open>NaN\<close> that pandas puts where a value is missing.
\<close>

datatype pyval = PNaN | PStr string | PInt int | PBool bool

type_synonym ticket_cells = "(pyval, pyval, pyval) ticket_fields"

text \<open>
  The ticket frame, lines 330 to 335 of the script:
  \<^verbatim>\<open>
  ticket_df = (pd.DataFrame.from_dict(extract_ticket_price_options(...), orient="index")
               .reset_index().rename(columns={"index": event_key}))
  ticket_df = ticket_df.set_index(event_key).apply(pd.Series.explode).reset_index()
  \<close>
  \<^verbatim>\<open>from_dict\<close> makes one row per key of the mapping, in the order of the keys, with the
  four lists as cells; for an empty mapping the frame has no column but the key.
  \<^verbatim>\<open>apply(pd.Series.explode)\<close> explodes each of the four columns on its own: every element
  of a list becomes a row under the key of the list, and an empty list becomes one row
  holding \<^verbatim>\<open>NaN\<close>.
\<close>

definition explode :: "('a \<Rightarrow> pyval) \<Rightarrow> (string \<times> 'a list) list \<Rightarrow> (string \<times> pyval) list" where
  "explode f column =
     concat (map (\<lambda>(k, xs). if xs = [] then [(k, PNaN)] else map (\<lambda>x. (k, f x)) xs) column)"

definition column_of :: "(ticket_lists \<Rightarrow> 'a list) \<Rightarrow> ticket_details \<Rightarrow> (string \<times> 'a list) list" where
  "column_of field m = map (\<lambda>(k, l). (k, field l)) m"

text \<open>Four columns that have the same index, put side by side.\<close>

fun frame_of_columns ::
  "(string \<times> pyval) list \<Rightarrow> (string \<times> pyval) list \<Rightarrow> (string \<times> pyval) list
     \<Rightarrow> (string \<times> pyval) list \<Rightarrow> (string \<times> ticket_cells) list" where
  "frame_of_columns ((k, a) # tt) ((k2, b) # vt) ((k3, c) # st) ((k4, d) # pr) =
     (k, \<lparr>ticket_type = a, venue_type = b, is_streaming = c, ticket_price_gbp = d\<rparr>)
       # frame_of_columns tt vt st pr"
| "frame_of_columns tt vt st pr = []"

text \<open>
  The exploded columns are put together by their index, the list of keys. When the four
  have the same index the rows are the four columns side by side. When they do not, which
  takes an entry whose lists differ in length, pandas realigns the columns by label; that
  case is outside this model, and \<open>ticket_df\<close> is \<open>None\<close> there.
\<close>

record ticket_frame =
  ticket_columns :: "string list"
  ticket_rows :: "(string \<times> ticket_cells) list"

definition ticket_df :: "ticket_details \<Rightarrow> ticket_frame option" where
  "ticket_df m =
     (if m = [] then Some \<lparr>ticket_columns = [''short_url''], ticket_rows = []\<rparr>
      else
        let tt = explode PStr (column_of ticket_type m);
            vt = explode PStr (column_of venue_type m);
            st = explode PBool (column_of is_streaming m);
            pr = explode PInt (column_of ticket_price_gbp m)
        in if map fst vt = map fst tt \<and> map fst st = map fst tt \<and> map fst pr = map fst tt
           then Some \<lparr>ticket_columns = ''short_url'' # TICKET_METADATA_COLUMNS,
                      ticket_rows = frame_of_columns tt vt st pr\<rparr>
           else None)"

text \<open>
  The merge, lines 338 to 340:
  \<^verbatim>\<open>
  merged_df = pd.merge(event_df, ticket_df, left_on=event_key, right_on=event_key,
                       how="inner")[ALL_COLUMNS]
  \<close>
  \<open>event_df\<close> is the list of the rows of the event frame, in the order in which
  \<^verbatim>\<open>sort_values\<close> left them. The inner join on \<^verbatim>\<open>short_url\<close> pairs every row of the event
  frame, in order, with every row of the ticket frame that has the same key, in order; a
  row of the result is the event record together with the ticket cells. The selection of
  \<^verbatim>\<open>ALL_COLUMNS\<close> raises \<^verbatim>\<open>KeyError\<close> when the joined frame lacks one of them, which is
  the \<open>None\<close> of \<open>merged_df\<close>.
\<close>

type_synonym merged_row = "event_record \<times> ticket_cells"

definition merged_df :: "event_record list \<Rightarrow> ticket_frame \<Rightarrow> merged_row list option" where
  "merged_df event_df tickets =
     (if \<not> set ALL_COLUMNS \<subseteq> set (EVENT_METADATA_COLUMNS @ ticket_columns tickets) then None
      else
        Some (concat (map (\<lambda>e. map (\<lambda>t. (e, snd t))
                                  (filter (\<lambda>t. fst t = short_url e) (ticket_rows tickets)))
                        event_df)))"

text \<open>The ticket options that a frame holds under a key, and the cells of option \<open>i\<close> of an entry.\<close>

definition options_with_key :: "string \<Rightarrow> ticket_frame \<Rightarrow> ticket_cells list" where
  "options_with_key K tickets = map snd (filter (\<lambda>t. fst t = K) (ticket_rows tickets))"

definition cells_at :: "ticket_lists \<Rightarrow> nat \<Rightarrow> ticket_cells" where
  "cells_at l i =
     \<lparr>ticket_type = PStr (ticket_type l ! i), venue_type = PStr (venue_type l ! i),
      is_streaming = PBool (is_streaming l ! i), ticket_price_gbp = PInt (ticket_price_gbp l ! i)\<rparr>"

definition nan_cells :: ticket_cells where
  "nan_cells = \<lparr>ticket_type = PNaN, venue_type = PNaN, is_streaming = PNaN, ticket_price_gbp = PNaN\<rparr>"

text \<open>
  The rows that one entry of the mapping explodes to when its four lists have one length:
  one row per position of the lists, and one row of \<^verbatim>\<open>NaN\<close> when the lists are empty.
\<close>

definition entry_rows :: "string \<Rightarrow> ticket_lists \<Rightarrow> (string \<times> ticket_cells) list" where
  "entry_rows k l =
     (if ticket_price_gbp l = [] then [(k, nan_cells)]
      else map (\<lambda>i. (k, cells_at l i)) [0 ..< length (ticket_price_gbp l)])"

definition same_lengths :: "ticket_lists \<Rightarrow> bool" where
  "same_lengths l =
     (length (venue_type l) = length (ticket_type l)
      \<and> length (is_streaming l) = length (ticket_type l)
      \<and> length (ticket_price_gbp l) = length (ticket_type l))"

subsection \<open>Example frames\<close>

text \<open>
  The mapping that the example rows give, and an event frame of two concerts: \<open>Recital A\<close>
  at \<^verbatim>\<open>/event/1\<close>, which has tickets, and \<open>Recital B\<close> at \<^verbatim>\<open>/event/9\<close>, which has none.
\<close>

definition example_ticket_details :: ticket_details where
  "example_ticket_details =
     [(''/event/1'',
       \<lparr>ticket_type = [''Standard'', ''Standard''],
        venue_type = [''In-person only'', ''In-person only''],
        is_streaming = [False, False], ticket_price_gbp = [10, 5]\<rparr>),
      (''/event/2'',
       \<lparr>ticket_type = [''Standard''], venue_type = [''In-person only''],
        is_streaming = [False], ticket_price_gbp = [20]\<rparr>)]"

definition example_event :: "string \<Rightarrow> string \<Rightarrow> event_record" where
  "example_event name url =
     \<lparr>date = ''2021-10-12'', time = ''19:30'', title = name, artists = ''Singer'',
      description = ''Songs'', venue = ''Holywell Music Room'', interested = 0,
      categories = ''Song'', short_url = url,
      long_url = ''https://www.oxfordlieder.co.uk'' @ url\<rparr>"

definition example_event_df :: "event_record list" where
  "example_event_df =
     [example_event ''Recital A'' ''/event/1'', example_event ''Recital B'' ''/event/9'']"

section \<open>Facts about the string functions\<close>

lemma contains_iff: "contains pat s \<longleftrightarrow> (\<exists>pre post. s = pre @ pat @ post)"
proof (induction s)
  case Nil
  then show ?case by auto
next
  case (Cons c cs)
  show ?case
  proof
    assume "contains pat (c # cs)"
    then consider "prefix pat (c # cs)" | "contains pat cs" by auto
    then show "\<exists>pre post. c # cs = pre @ pat @ post"
    proof cases
      case 1
      then obtain post where "c # cs = pat @ post" by (auto simp: prefix_def)
      then have "c # cs = [] @ pat @ post" by simp
      then show ?thesis by blast
    next
      case 2
      with Cons.IH obtain pre post where "cs = pre @ pat @ post" by blast
      then have "c # cs = (c # pre) @ pat @ post" by simp
      then show ?thesis by blast
    qed
  next
    assume "\<exists>pre post. c # cs = pre @ pat @ post"
    then obtain pre post where eq: "c # cs = pre @ pat @ post" by blast
    show "contains pat (c # cs)"
    proof (cases pre)
      case Nil
      with eq have "prefix pat (c # cs)" by (simp add: prefix_def)
      then show ?thesis by simp
    next
      case (Cons p pre')
      with eq have "cs = pre' @ pat @ post" by simp
      with Cons.IH have "contains pat cs" by blast
      then show ?thesis by simp
    qed
  qed
qed

lemma of_char_less_256: "(of_char c :: nat) < 256"
  by (cases c) simp

lemma eq_char_of_iff: "c = char_of (n::nat) \<longleftrightarrow> of_char c = n mod 256"
  using char_of_eq_iff [of n c] by (auto simp: take_bit_eq_mod)

lemma lower_char_eq_iff:
  assumes "97 \<le> (of_char d :: nat)" "(of_char d :: nat) \<le> 122"
  shows "lower_char c = d \<longleftrightarrow> same_letter c d"
proof -
  have inj: "c = d \<longleftrightarrow> (of_char c :: nat) = of_char d" by simp
  have lt: "(of_char c :: nat) < 256" by (rule of_char_less_256)
  show ?thesis
    using assms lt
    unfolding lower_char_def same_letter_def Let_def inj
    by (auto simp: char_of_eq_iff take_bit_eq_mod)
qed

lemma map_lower_eq_iff:
  assumes "\<forall>d \<in> set t. 97 \<le> (of_char d :: nat) \<and> (of_char d :: nat) \<le> 122"
  shows "map lower_char s = t \<longleftrightarrow> list_all2 same_letter s t"
  using assms
proof (induction s arbitrary: t)
  case Nil
  then show ?case by auto
next
  case (Cons c cs)
  then show ?case by (cases t) (auto simp: lower_char_eq_iff)
qed

lemma map_eq_block_iff:
  "(\<exists>pre post. map f v = pre @ t @ post) \<longleftrightarrow>
   (\<exists>pre mid post. v = pre @ mid @ post \<and> map f mid = t)"
proof
  assume "\<exists>pre post. map f v = pre @ t @ post"
  then obtain pre post where "map f v = pre @ (t @ post)" by auto
  then obtain us vs where v: "v = us @ vs" and "t @ post = map f vs"
    by (auto simp: map_eq_append_conv)
  then obtain mid ws where "vs = mid @ ws" and "t = map f mid"
    by (auto simp: append_eq_map_conv)
  with v show "\<exists>pre mid post. v = pre @ mid @ post \<and> map f mid = t" by auto
next
  assume "\<exists>pre mid post. v = pre @ mid @ post \<and> map f mid = t"
  then obtain pre mid post where "v = pre @ mid @ post" "map f mid = t" by blast
  then have "map f v = map f pre @ t @ map f post" by simp
  then show "\<exists>pre post. map f v = pre @ t @ post" by blast
qed

lemma streaming_iff_mentions: "return_if_venue_has_streaming v \<longleftrightarrow> mentions_stream v"
proof -
  have letters: "\<forall>d \<in> set ''stream''. 97 \<le> (of_char d :: nat) \<and> (of_char d :: nat) \<le> 122"
    by simp
  have "return_if_venue_has_streaming v \<longleftrightarrow>
        (\<exists>pre post. map lower_char v = pre @ ''stream'' @ post)"
    by (simp add: return_if_venue_has_streaming_def lower_def contains_iff)
  also have "\<dots> \<longleftrightarrow> (\<exists>pre mid post. v = pre @ mid @ post \<and> map lower_char mid = ''stream'')"
    by (rule map_eq_block_iff)
  also have "\<dots> \<longleftrightarrow> mentions_stream v"
    unfolding mentions_stream_def map_lower_eq_iff[OF letters] ..
  finally show ?thesis .
qed

lemma streaming_known_venues:
  "return_if_venue_has_streaming ''In-person & Streaming (Digital Concert Hall)''"
  "\<not> return_if_venue_has_streaming ''In-person only''"
  by (simp_all add: return_if_venue_has_streaming_def lower_def lower_char_def eq_char_of_iff)

section \<open>Facts about the ticket extractor\<close>

lemma map_of_dict_modify:
  "map_of (dict_modify k f d) K = (if K = k then map_option f (map_of d K) else map_of d K)"
  by (induction d) (auto simp: dict_modify_def)

lemma map_fst_dict_modify: "map fst (dict_modify k f d) = map fst d"
  by (induction d) (auto simp: dict_modify_def)

lemma map_of_snoc:
  "map_of (d @ [(k, v)]) K =
     (case map_of d K of Some x \<Rightarrow> Some x | None \<Rightarrow> if K = k then Some v else None)"
  by (induction d) auto

lemma lists_of_single: "lists_of [d] = seed_lists d"
  by (simp add: lists_of_def seed_lists_def)

lemma extend_lists_simps:
  "extend_lists l [] = l"
  "extend_lists l (d # ds) = extend_lists (append_lists d l) ds"
  by (simp_all add: extend_lists_def)

lemma append_lists_of: "append_lists d (lists_of ds) = lists_of (ds @ [d])"
  by (simp add: append_lists_def lists_of_def)

lemma extend_lists_of: "extend_lists (lists_of xs) ds = lists_of (xs @ ds)"
  by (induction ds arbitrary: xs) (simp_all add: extend_lists_simps append_lists_of)

lemma ticket_row_step_cases:
  assumes "ticket_row_step r (td, cur) = Inr (td', cur')"
  obtains (seed) d k where "row_ticket_data r = Inr d" "select_one_event r = Some k"
      "map_of td k = None" "td' = td @ [(k, seed_lists d)]" "cur' = k"
  | (skip) d k l where "row_ticket_data r = Inr d" "select_one_event r = Some k"
      "map_of td k = Some l" "td' = td" "cur' = k"
  | (cont) d l where "row_ticket_data r = Inr d" "select_one_event r = None"
      "map_of td cur = Some l" "td' = dict_modify cur (append_lists d) td" "cur' = cur"
proof (cases "row_ticket_data r")
  case (Inl e)
  with assms show ?thesis by (simp add: ticket_row_step_def)
next
  case (Inr d)
  show ?thesis
  proof (cases "select_one_event r")
    case None
    show ?thesis
    proof (cases "map_of td cur")
      case None
      with assms Inr \<open>select_one_event r = None\<close> show ?thesis
        by (simp add: ticket_row_step_def)
    next
      case (Some l)
      with assms Inr None have "td' = dict_modify cur (append_lists d) td" "cur' = cur"
        by (auto simp add: ticket_row_step_def)
      with Inr None Some show ?thesis by (rule cont)
    qed
  next
    case (Some k)
    show ?thesis
    proof (cases "map_of td k")
      case None
      with assms Inr Some have "td' = td @ [(k, seed_lists d)]" "cur' = k"
        by (auto simp add: ticket_row_step_def)
      with Inr Some None show ?thesis by (rule seed)
    next
      case (Some l)
      with assms Inr \<open>select_one_event r = Some k\<close> have "td' = td" "cur' = k"
        by (auto simp add: ticket_row_step_def)
      with Inr \<open>select_one_event r = Some k\<close> Some show ?thesis by (rule skip)
    qed
  qed
qed

lemma loop_groups:
  assumes "ticket_rows_loop rows (td, cur) = Inr m"
  shows "map_of m K =
     (case map_of td K of
        Some l \<Rightarrow> Some (extend_lists l (continuations K cur (parsed_rows rows)))
      | None \<Rightarrow>
          (case seed_row K (parsed_rows rows) of
             None \<Rightarrow> None
           | Some d \<Rightarrow> Some (lists_of (d # continuations K cur (parsed_rows rows)))))"
  using assms
proof (induction rows arbitrary: td cur)
  case Nil
  then show ?case by (auto simp: parsed_rows_def extend_lists_simps split: option.splits)
next
  case (Cons r rows)
  from Cons.prems obtain td' cur' where
    step: "ticket_row_step r (td, cur) = Inr (td', cur')" and
    rest: "ticket_rows_loop rows (td', cur') = Inr m"
    by (auto split: sum.splits)
  note IH = Cons.IH [OF rest]
  from step show ?case
  proof (cases rule: ticket_row_step_cases)
    case (seed d k)
    have pr: "parsed_rows (r # rows) = (Some k, d) # parsed_rows rows"
      using seed by (simp add: parsed_rows_def)
    show ?thesis
      using IH seed
      by (auto simp: pr map_of_snoc lists_of_single [symmetric] extend_lists_of
               split: option.splits)
  next
    case (skip d k l)
    have pr: "parsed_rows (r # rows) = (Some k, d) # parsed_rows rows"
      using skip by (simp add: parsed_rows_def)
    show ?thesis
      using IH skip by (auto simp: pr split: option.splits)
  next
    case (cont d l)
    have pr: "parsed_rows (r # rows) = (None, d) # parsed_rows rows"
      using cont by (simp add: parsed_rows_def)
    show ?thesis
      using IH cont
      by (auto simp: pr map_of_dict_modify extend_lists_simps split: option.splits)
  qed
qed

lemma loop_keys:
  assumes "ticket_rows_loop rows (td, cur) = Inr m" "distinct (map fst td)"
  shows "distinct (map fst m) \<and>
         set (map fst m) = set (map fst td) \<union> {k. \<exists>r \<in> set rows. select_one_event r = Some k}"
  using assms
proof (induction rows arbitrary: td cur)
  case Nil
  then show ?case by auto
next
  case (Cons r rows)
  from Cons.prems obtain td' cur' where
    step: "ticket_row_step r (td, cur) = Inr (td', cur')" and
    rest: "ticket_rows_loop rows (td', cur') = Inr m"
    by (auto split: sum.splits)
  from step show ?case
  proof (cases rule: ticket_row_step_cases)
    case (seed d k)
    then have "k \<notin> set (map fst td)" by (simp add: map_of_eq_None_iff)
    then have "distinct (map fst td')" using seed Cons.prems(2) by simp
    from Cons.IH [OF rest this] show ?thesis using seed by auto
  next
    case (skip d k l)
    then have "k \<in> set (map fst td)" by (metis map_of_eq_None_iff option.distinct(1) set_map)
    moreover have "distinct (map fst td')" using skip Cons.prems(2) by simp
    ultimately show ?thesis using Cons.IH [OF rest] skip by auto
  next
    case (cont d l)
    have "distinct (map fst td')" using cont Cons.prems(2) by (simp add: map_fst_dict_modify)
    from Cons.IH [OF rest this] show ?thesis using cont by (auto simp: map_fst_dict_modify)
  qed
qed

lemma loop_rows_parse:
  "ticket_rows_loop rows st = Inr m \<Longrightarrow> r \<in> set rows \<Longrightarrow> \<exists>d. row_ticket_data r = Inr d"
proof (induction rows arbitrary: st)
  case Nil
  then show ?case by simp
next
  case (Cons a rows)
  then show ?case
    by (cases st) (auto simp: ticket_row_step_def split: sum.splits)
qed

lemma extract_groups:
  assumes "extract_ticket_price_options rows = Inr m"
  shows "map_of m K = map_option lists_of (group_rows K (parsed_rows rows))"
  using loop_groups [of rows "[]" "[]" m K] assms
  by (simp add: extract_ticket_price_options_def group_rows_def split: option.splits)

section \<open>Facts about price parsing\<close>

lemma bitlen_lower: "0 < n \<Longrightarrow> 2 ^ (bitlen n - 1) \<le> n"
proof (induction n rule: bitlen.induct)
  case (1 n)
  show ?case
  proof (cases "n div 2 = 0")
    case True
    with "1.prems" have "n = 1" by presburger
    then show ?thesis by (simp add: bitlen.simps)
  next
    case False
    then have pos: "0 < n div 2" by simp
    with "1.IH" "1.prems" have ih: "2 ^ (bitlen (n div 2) - 1) \<le> n div 2" by simp
    have bl: "bitlen n = Suc (bitlen (n div 2))" using "1.prems" by (simp add: bitlen.simps)
    have "0 < bitlen (n div 2)" using pos by (simp add: bitlen.simps)
    then have "2 ^ (bitlen n - 1) = 2 * 2 ^ (bitlen (n div 2) - 1)"
      unfolding bl by (cases "bitlen (n div 2)") simp_all
    also have "\<dots> \<le> 2 * (n div 2)" using ih by simp
    also have "\<dots> \<le> n" by simp
    finally show ?thesis .
  qed
qed

lemma bitlen_upper: "n < 2 ^ bitlen n"
proof (induction n rule: bitlen.induct)
  case (1 n)
  show ?case
  proof (cases "n = 0")
    case True
    then show ?thesis by simp
  next
    case False
    with "1.IH" have ih: "n div 2 < 2 ^ bitlen (n div 2)" by simp
    have bl: "bitlen n = Suc (bitlen (n div 2))" using False by (simp add: bitlen.simps)
    from ih have "n < 2 * 2 ^ bitlen (n div 2)" by linarith
    then show ?thesis unfolding bl by simp
  qed
qed

text \<open>The exponent chosen by floor_log2 never overshoots: 2 ^ fl \<le> num / den.\<close>

lemma floor_log2_lower:
  assumes "0 < num" "0 < den"
  shows "(0 \<le> floor_log2 num den \<longrightarrow> den * 2 ^ nat (floor_log2 num den) \<le> num)
       \<and> (floor_log2 num den < 0 \<longrightarrow> den \<le> num * 2 ^ nat (- floor_log2 num den))"
proof -
  define k where "k = int (bitlen num) - int (bitlen den)"
  define ok where "ok \<longleftrightarrow> (if 0 \<le> k then den * 2 ^ nat k \<le> num else den \<le> num * 2 ^ nat (- k))"
  have fl: "floor_log2 num den = (if ok then k else k - 1)"
    by (simp add: floor_log2_def k_def ok_def Let_def)
  have bn: "0 < bitlen num" and bd: "0 < bitlen den"
    using assms by (simp_all add: bitlen.simps)
  have lo: "2 ^ (bitlen num - 1) \<le> num" using assms bitlen_lower by simp
  have hi: "den < 2 ^ bitlen den" by (rule bitlen_upper)
  show ?thesis
  proof (cases ok)
    case True
    then show ?thesis unfolding fl ok_def by (auto split: if_splits)
  next
    case False
    have "?thesis \<longleftrightarrow> ((0 \<le> k - 1 \<longrightarrow> den * 2 ^ nat (k - 1) \<le> num)
       \<and> (k - 1 < 0 \<longrightarrow> den \<le> num * 2 ^ nat (- (k - 1))))"
      unfolding fl using False by simp
    moreover have "0 \<le> k - 1 \<longrightarrow> den * 2 ^ nat (k - 1) \<le> num"
    proof
      assume "0 \<le> k - 1"
      then have e: "nat (k - 1) + bitlen den = bitlen num - 1" unfolding k_def by linarith
      have "den * 2 ^ nat (k - 1) \<le> 2 ^ bitlen den * 2 ^ nat (k - 1)"
        using hi by (simp add: mult_le_mono1)
      also have "\<dots> = 2 ^ (bitlen num - 1)"
        using e by (metis add.commute power_add)
      also have "\<dots> \<le> num" by (rule lo)
      finally show "den * 2 ^ nat (k - 1) \<le> num" .
    qed
    moreover have "k - 1 < 0 \<longrightarrow> den \<le> num * 2 ^ nat (- (k - 1))"
    proof
      assume "k - 1 < 0"
      then have e: "bitlen den = (bitlen num - 1) + nat (- (k - 1))"
        unfolding k_def using bn by linarith
      have "den \<le> 2 ^ bitlen den" using hi by simp
      also have "\<dots> = 2 ^ (bitlen num - 1) * 2 ^ nat (- (k - 1))"
        by (subst e) (simp add: power_add)
      also have "\<dots> \<le> num * 2 ^ nat (- (k - 1))"
        using lo by (simp add: mult_le_mono1)
      finally show "den \<le> num * 2 ^ nat (- (k - 1))" .
    qed
    ultimately show ?thesis by blast
  qed
qed

lemma round_half_even_ge: "0 < d \<Longrightarrow> n div d \<le> round_half_even n d"
  by (simp add: round_half_even_def Let_def)

lemma round_half_even_le: "round_half_even n d \<le> n div d + 1"
  by (simp add: round_half_even_def Let_def)

lemma round_half_even_down: "2 * (n mod d) < d \<Longrightarrow> round_half_even n d = n div d"
  by (simp add: round_half_even_def Let_def)

text \<open>
  Rounding the scaled quotient keeps it between I * 2 ^ a and (I + 1) * 2 ^ a when the
  grid is fine enough: den < 2 ^ (a + 1).
\<close>

lemma round_scaled_bounds:
  assumes den: "0 < den" and lo: "I * den \<le> num" and hi: "num < (I + 1) * den"
    and fine: "den < 2 ^ (a + 1)"
  shows "I * 2 ^ a \<le> round_half_even (num * 2 ^ a) den
       \<and> round_half_even (num * 2 ^ a) den < (I + 1) * 2 ^ a"
proof -
  define P :: nat where "P = 2 ^ a"
  define n where "n = num * P"
  define U where "U = (I + 1) * P"
  define q where "q = n div den"
  define r where "r = n mod den"
  have Ppos: "0 < P" by (simp add: P_def)
  have fine': "den < 2 * P" using fine by (simp add: P_def)
  have n_eq: "n = q * den + r" by (simp add: q_def r_def)
  have "(I * den) * P \<le> num * P" using lo by (rule mult_le_mono1)
  then have "(I * P) * den \<le> n" by (simp add: n_def ac_simps)
  then have lower: "I * P \<le> q"
    unfolding q_def using den by (simp add: less_eq_div_iff_mult_less_eq)
  have "num + 1 \<le> (I + 1) * den" using hi by simp
  then have "(num + 1) * P \<le> ((I + 1) * den) * P" by (rule mult_le_mono1)
  then have n_le: "n + P \<le> U * den" by (simp add: n_def U_def ac_simps add_mult_distrib2)
  with Ppos have "n < U * den" by linarith
  then have q_lt: "q < U" unfolding q_def using den by (simp add: div_less_iff_less_mult)
  have rhe_ge: "q \<le> round_half_even n den"
    unfolding q_def using den by (rule round_half_even_ge)
  have rhe_le: "round_half_even n den \<le> q + 1"
    unfolding q_def by (rule round_half_even_le)
  have upper: "round_half_even n den < U"
  proof (cases "q + 1 < U")
    case True
    with rhe_le show ?thesis by linarith
  next
    case False
    with q_lt have "U = q + 1" by linarith
    then have "U * den = q * den + den" by simp
    with n_le n_eq have "r + P \<le> den" by linarith
    with fine' have "2 * r < den" by linarith
    then have "round_half_even n den = q"
      unfolding q_def r_def by (rule round_half_even_down)
    with q_lt show ?thesis by simp
  qed
  from lower rhe_ge upper show ?thesis
    unfolding n_def U_def P_def by simp
qed

text \<open>
  A quotient between I and I + 1 whose denominator leaves room in the 53 bits,
  (I + 1) * den \<le> 2 ^ 53, is rounded to a binary64 value whose integer part is I.
\<close>

lemma round_binary64_exponent:
  assumes "0 < den" "0 < num" "num < (I + 1) * den" "(I + 1) * den \<le> 2 ^ 53"
  defines "e \<equiv> max (floor_log2 num den - 52) (- 1074)"
  shows "e \<le> 0 \<and> den < 2 ^ (nat (- e) + 1)"
proof -
  define fl where "fl = floor_log2 num den"
  have e_def': "e = max (fl - 52) (- 1074)" by (simp add: e_def fl_def)
  have num53: "num < 2 ^ 53" using assms(3,4) by linarith
  have "den \<le> (I + 1) * den" by simp
  with assms(4) have den53: "den \<le> 2 ^ 53" by linarith
  note low = floor_log2_lower [OF assms(2) assms(1), folded fl_def]
  show ?thesis
  proof (cases "0 \<le> fl")
    case True
    with low have le: "den * 2 ^ nat fl \<le> num" by blast
    have "(2::nat) ^ nat fl \<le> den * 2 ^ nat fl" using assms(1) by simp
    with le num53 have "(2::nat) ^ nat fl < 2 ^ 53" by linarith
    then have "nat fl < 53" using power_less_imp_less_exp [of 2 "nat fl" 53] by simp
    then have fl52: "fl \<le> 52" by linarith
    then have e_eq: "e = fl - 52" using True by (simp add: e_def')
    have a_eq: "nat (- e) + 1 + nat fl = 53" using True fl52 by (simp add: e_eq)
    have "den * 2 ^ nat fl < 2 ^ 53" using le num53 by linarith
    also have "(2::nat) ^ 53 = 2 ^ (nat (- e) + 1) * 2 ^ nat fl"
      by (simp only: a_eq [symmetric] power_add)
    finally have "den < 2 ^ (nat (- e) + 1)" by simp
    with fl52 e_eq show ?thesis by simp
  next
    case False
    then have e_le: "e \<le> - 53" by (simp add: e_def')
    then have "53 \<le> nat (- e)" by linarith
    then have "(2::nat) ^ 53 \<le> 2 ^ nat (- e)" by (rule power_increasing) simp
    also have "\<dots> < 2 ^ (nat (- e) + 1)" by simp
    finally have "den < 2 ^ (nat (- e) + 1)" using den53 by linarith
    with e_le show ?thesis by simp
  qed
qed

lemma py_int_round_binary64:
  assumes den: "0 < den" and num: "0 < num" and lo: "I * den \<le> num"
    and hi: "num < (I + 1) * den" and room: "(I + 1) * den \<le> 2 ^ 53"
  shows "py_int (round_binary64 neg num den) = Inr (if neg then - int I else int I)"
proof -
  define e where "e = max (floor_log2 num den - 52) (- 1074)"
  define a where "a = nat (- e)"
  define m where "m = round_half_even (num * 2 ^ a) den"
  from round_binary64_exponent [OF den num hi room]
  have e0: "e \<le> 0" and fine: "den < 2 ^ (a + 1)" by (simp_all add: e_def a_def)
  from round_scaled_bounds [OF den lo hi fine]
  have mlo: "I * 2 ^ a \<le> m" and mhi: "m < (I + 1) * 2 ^ a" by (simp_all add: m_def)
  have mdiv: "m div 2 ^ a = I"
  proof -
    have "m div 2 ^ a < I + 1" using mhi by (simp add: div_less_iff_less_mult)
    moreover have "I \<le> m div 2 ^ a" using mlo by (simp add: less_eq_div_iff_mult_less_eq)
    ultimately show ?thesis by linarith
  qed
  show ?thesis
  proof (cases "e = 0")
    case True
    then have a0: "a = 0" by (simp add: a_def)
    with mdiv have mI: "m = I" by simp
    have m': "round_half_even num den = I" using mI by (simp add: m_def a0)
    have "(I + 1) * 1 \<le> (I + 1) * den" using den by (intro mult_le_mono2) simp
    then have "I + 1 \<le> (I + 1) * den" by simp
    with room have I53: "I < 2 ^ 53" by linarith
    have "(2::nat) ^ 53 \<le> 2 ^ 1024" by (rule power_increasing) simp_all
    with I53 have "\<not> (2::nat) ^ 1024 \<le> I" by linarith
    then show ?thesis
      using True m' by (simp add: round_binary64_def e_def [symmetric] Let_def)
  next
    case False
    with e0 have eneg: "e < 0" by simp
    then show ?thesis
      using mdiv by (simp add: round_binary64_def e_def [symmetric] Let_def a_def m_def)
  qed
qed

lemma is_digit_range: "is_digit c \<longleftrightarrow> 48 \<le> (of_char c :: nat) \<and> (of_char c :: nat) \<le> 57"
  by (simp add: is_digit_def Let_def)

lemma digit_not_space: "is_digit c \<Longrightarrow> \<not> isspace c"
  by (simp add: is_digit_range isspace_def Let_def)

lemma digit_neq:
  assumes "is_digit c"
  shows "c \<noteq> CHR ''_''" "c \<noteq> CHR ''-''" "c \<noteq> CHR ''+''" "c \<noteq> CHR ''.''"
    "c \<noteq> pound" "c \<noteq> CHR ''i''" "c \<noteq> CHR ''n''"
proof -
  have r: "48 \<le> (of_char c :: nat)" "(of_char c :: nat) \<le> 57"
    using assms by (simp_all add: is_digit_range)
  show "c \<noteq> CHR ''_''" using r by auto
  show "c \<noteq> CHR ''-''" using r by auto
  show "c \<noteq> CHR ''+''" using r by auto
  show "c \<noteq> CHR ''.''" using r by auto
  show "c \<noteq> pound" using r by (auto simp: pound_def)
  show "c \<noteq> CHR ''i''" using r by auto
  show "c \<noteq> CHR ''n''" using r by auto
qed

lemma digit_lower: "is_digit c \<Longrightarrow> lower_char c = c"
  by (simp add: is_digit_range lower_char_def Let_def)

lemma digit_val_le: "is_digit c \<Longrightarrow> digit_val c \<le> 9"
  unfolding is_digit_range digit_val_def by linarith

lemmas digit_facts = digit_not_space digit_neq digit_lower digit_val_le

lemma strip_id:
  assumes "s \<noteq> []" "\<not> isspace (hd s)" "\<not> isspace (last s)"
  shows "strip s = s"
proof -
  have l: "lstrip s = s" using assms(2) by (cases s) (simp_all add: lstrip_def)
  obtain x xs where r: "rev s = x # xs" using assms(1) by (cases "rev s") auto
  have "last s = x" using r by (metis hd_rev list.sel(1))
  with assms(3) have "\<not> isspace x" by simp
  then have "dropWhile isspace (rev s) = rev s" by (simp add: r)
  with l show ?thesis by (simp add: strip_def rstrip_def)
qed

lemma digit_not_float_space: "is_digit c \<Longrightarrow> \<not> float_isspace c"
  by (simp add: is_digit_range float_isspace_def Let_def)

lemma float_strip_id:
  assumes "s \<noteq> []" "\<not> float_isspace (hd s)" "\<not> float_isspace (last s)"
  shows "float_strip s = s"
proof -
  have l: "dropWhile float_isspace s = s" using assms(2) by (cases s) simp_all
  obtain x xs where r: "rev s = x # xs" using assms(1) by (cases "rev s") auto
  have "last s = x" using r by (metis hd_rev list.sel(1))
  with assms(3) have "\<not> float_isspace x" by simp
  then have "dropWhile float_isspace (rev s) = rev s" by (simp add: r)
  with l show ?thesis by (simp add: float_strip_def)
qed

lemma underscores_ok_none:
  "CHR ''_'' \<notin> set s \<Longrightarrow> prev \<noteq> CHR ''_'' \<Longrightarrow> underscores_ok prev s"
  by (induction s arbitrary: prev) auto

lemma nat_of_digits_foldl:
  "foldl (\<lambda>a c. 10 * a + digit_val c) a ys = a * 10 ^ length ys + nat_of_digits ys"
proof (induction ys arbitrary: a)
  case Nil
  then show ?case by (simp add: nat_of_digits_def)
next
  case (Cons y ys)
  let ?f = "\<lambda>a c. 10 * a + digit_val c"
  have "foldl ?f a (y # ys) = foldl ?f (10 * a + digit_val y) ys" by simp
  also have "\<dots> = (10 * a + digit_val y) * 10 ^ length ys + nat_of_digits ys"
    by (rule Cons.IH)
  finally have lhs: "foldl ?f a (y # ys) = (10 * a + digit_val y) * 10 ^ length ys + nat_of_digits ys" .
  have "nat_of_digits (y # ys) = foldl ?f (digit_val y) ys" by (simp add: nat_of_digits_def)
  also have "\<dots> = digit_val y * 10 ^ length ys + nat_of_digits ys" by (rule Cons.IH)
  finally have rhs: "nat_of_digits (y # ys) = digit_val y * 10 ^ length ys + nat_of_digits ys" .
  show ?case unfolding lhs rhs by (simp add: algebra_simps)
qed

lemma nat_of_digits_append:
  "nat_of_digits (xs @ ys) = nat_of_digits xs * 10 ^ length ys + nat_of_digits ys"
  using nat_of_digits_foldl [of "nat_of_digits xs" ys]
  by (simp add: nat_of_digits_def)

lemma nat_of_digits_less:
  "\<forall>c \<in> set ds. is_digit c \<Longrightarrow> nat_of_digits ds < 10 ^ length ds"
proof (induction ds rule: rev_induct)
  case Nil
  then show ?case by (simp add: nat_of_digits_def)
next
  case (snoc d ds)
  then have ih: "nat_of_digits ds + 1 \<le> 10 ^ length ds" by simp
  have d9: "digit_val d \<le> 9" using snoc.prems by (simp add: digit_facts)
  have "nat_of_digits (ds @ [d]) = nat_of_digits ds * 10 + digit_val d"
    by (simp add: nat_of_digits_append nat_of_digits_def)
  also have "\<dots> < (nat_of_digits ds + 1) * 10" using d9 by simp
  also have "\<dots> \<le> 10 ^ length ds * 10" using ih by (rule mult_le_mono1)
  finally show ?case by simp
qed

text \<open>What float() makes of a plain decimal literal.\<close>

lemma py_float_digits_prelude:
  assumes ip: "ip \<noteq> []" "\<forall>c \<in> set ip. is_digit c"
    and rest: "\<forall>c \<in> set rest. is_digit c \<or> c = CHR ''.''"
  shows "float_strip (ip @ rest) = ip @ rest"
    and "underscores_ok (CHR 0x00) (ip @ rest)"
    and "filter (\<lambda>c. c \<noteq> CHR ''_'') (ip @ rest) = ip @ rest"
    and "take_sign (ip @ rest) = (False, ip @ rest)"
    and "lower (ip @ rest) \<noteq> ''inf''"
    and "lower (ip @ rest) \<noteq> ''infinity''"
    and "lower (ip @ rest) \<noteq> ''nan''"
proof -
  obtain d ds where ip_eq: "ip = d # ds" using ip(1) by (cases ip) auto
  have d: "is_digit d" using ip(2) ip_eq by simp
  have all_ok: "\<forall>c \<in> set (ip @ rest). is_digit c \<or> c = CHR ''.''"
    using ip(2) rest by auto
  have last_ok: "\<not> float_isspace (last (ip @ rest))"
  proof -
    have "last (ip @ rest) \<in> set (ip @ rest)" using ip(1) by (intro last_in_set) simp
    with all_ok have "is_digit (last (ip @ rest)) \<or> last (ip @ rest) = CHR ''.''" by blast
    then show ?thesis
    proof
      assume "is_digit (last (ip @ rest))"
      then show ?thesis by (rule digit_not_float_space)
    next
      assume "last (ip @ rest) = CHR ''.''"
      then show ?thesis by (simp add: float_isspace_def)
    qed
  qed
  have hd_ok: "\<not> float_isspace (hd (ip @ rest))"
    using d by (simp add: ip_eq digit_not_float_space)
  show "float_strip (ip @ rest) = ip @ rest"
    using ip(1) hd_ok last_ok by (intro float_strip_id) simp_all
  have no_us: "CHR ''_'' \<notin> set (ip @ rest)"
  proof
    assume "CHR ''_'' \<in> set (ip @ rest)"
    with all_ok have "is_digit (CHR ''_'')" by auto
    then show False by (simp add: is_digit_range)
  qed
  then show "underscores_ok (CHR 0x00) (ip @ rest)" by (intro underscores_ok_none) simp_all
  show "filter (\<lambda>c. c \<noteq> CHR ''_'') (ip @ rest) = ip @ rest"
    using no_us by (intro filter_True) auto
  show "take_sign (ip @ rest) = (False, ip @ rest)"
    using digit_neq(2,3) [OF d] by (simp add: ip_eq)
  have "hd (lower (ip @ rest)) = d" using digit_lower [OF d] by (simp add: ip_eq lower_def)
  then have "hd (lower (ip @ rest)) \<noteq> CHR ''i''" "hd (lower (ip @ rest)) \<noteq> CHR ''n''"
    using digit_neq(6,7) [OF d] by simp_all
  then show "lower (ip @ rest) \<noteq> ''inf''" "lower (ip @ rest) \<noteq> ''infinity''"
    "lower (ip @ rest) \<noteq> ''nan''"
    by auto
qed

lemma py_float_core_integer:
  assumes "float_strip s = s" "underscores_ok (CHR 0x00) s" "filter (\<lambda>c. c \<noteq> CHR ''_'') s = s"
    "take_sign s = (False, s)" "lower s \<noteq> ''inf''" "lower s \<noteq> ''infinity''"
    "lower s \<noteq> ''nan''"
    and tw: "takeWhile is_digit s = s" and dw: "dropWhile is_digit s = []" and ne: "s \<noteq> []"
  shows "py_float s =
           Inr (if nat_of_digits s = 0 then Finite False 0 0
                else round_binary64 False (nat_of_digits s) 1)"
  by (simp add: py_float_def Let_def assms parse_exponent_def)

lemma py_float_core_point:
  assumes "float_strip s = s" "underscores_ok (CHR 0x00) s" "filter (\<lambda>c. c \<noteq> CHR ''_'') s = s"
    "take_sign s = (False, s)" "lower s \<noteq> ''inf''" "lower s \<noteq> ''infinity''"
    "lower s \<noteq> ''nan''"
    and tw: "takeWhile is_digit s = ip" and dw: "dropWhile is_digit s = CHR ''.'' # fp"
    and ne: "ip \<noteq> []"
    and twf: "takeWhile is_digit fp = fp" and dwf: "dropWhile is_digit fp = []"
  shows "py_float s =
           Inr (if nat_of_digits (ip @ fp) = 0 then Finite False 0 0
                else round_binary64 False (nat_of_digits (ip @ fp)) (10 ^ length fp))"
  by (simp add: py_float_def Let_def assms parse_exponent_def)

lemma py_float_integer:
  assumes ip: "ip \<noteq> []" "\<forall>c \<in> set ip. is_digit c"
  shows "py_float ip =
           Inr (if nat_of_digits ip = 0 then Finite False 0 0
                else round_binary64 False (nat_of_digits ip) 1)"
proof -
  have "\<forall>c \<in> set []. is_digit c \<or> c = CHR ''.''" by simp
  note pre = py_float_digits_prelude [OF ip this, unfolded append_Nil2]
  have tw: "takeWhile is_digit ip = ip" using ip(2) by (simp add: takeWhile_eq_all_conv)
  have dw: "dropWhile is_digit ip = []" using ip(2) by simp
  show ?thesis by (rule py_float_core_integer [OF pre tw dw ip(1)])
qed

lemma py_float_point:
  assumes ip: "ip \<noteq> []" "\<forall>c \<in> set ip. is_digit c" and fp: "\<forall>c \<in> set fp. is_digit c"
  shows "py_float (ip @ CHR ''.'' # fp) =
           Inr (if nat_of_digits (ip @ fp) = 0 then Finite False 0 0
                else round_binary64 False (nat_of_digits (ip @ fp)) (10 ^ length fp))"
proof -
  have rest: "\<forall>c \<in> set (CHR ''.'' # fp). is_digit c \<or> c = CHR ''.''" using fp by simp
  note pre = py_float_digits_prelude [OF ip rest]
  have nd: "\<not> is_digit (CHR ''.'')" by (simp add: is_digit_range)
  have tw: "takeWhile is_digit (ip @ CHR ''.'' # fp) = ip"
    using ip(2) nd by (simp add: takeWhile_append2)
  have dw: "dropWhile is_digit (ip @ CHR ''.'' # fp) = CHR ''.'' # fp"
    using ip(2) nd by (simp add: dropWhile_append2)
  have twf: "takeWhile is_digit fp = fp" using fp by (simp add: takeWhile_eq_all_conv)
  have dwf: "dropWhile is_digit fp = []" using fp by simp
  show ?thesis by (rule py_float_core_point [OF pre tw dw ip(1) twf dwf])
qed

text \<open>Prices whose digits leave room in the 53 bits of a float keep their integer part.\<close>

lemma pow10_15_le: "(10::nat) ^ 15 \<le> 2 ^ 53"
  by simp

lemma price_of_digits:
  assumes ip: "ip \<noteq> []" "\<forall>c \<in> set ip. is_digit c"
    and room: "nat_of_digits ip + 1 \<le> 2 ^ 53"
  shows "py_float ip = Inr x \<Longrightarrow> py_int x = Inr (int (nat_of_digits ip))"
proof -
  define I where "I = nat_of_digits ip"
  assume "py_float ip = Inr x"
  with py_float_integer [OF ip]
  have x: "x = (if I = 0 then Finite False 0 0 else round_binary64 False I 1)"
    by (simp add: I_def)
  show ?thesis
  proof (cases "I = 0")
    case True
    then show ?thesis using x by (simp add: I_def)
  next
    case False
    have "py_int (round_binary64 False I 1) = Inr (int I)"
      using py_int_round_binary64 [of 1 I I False] False room by (simp add: I_def)
    then show ?thesis using x False by (simp add: I_def)
  qed
qed

lemma price_of_point:
  assumes ip: "ip \<noteq> []" "\<forall>c \<in> set ip. is_digit c" and fp: "\<forall>c \<in> set fp. is_digit c"
    and room: "(nat_of_digits ip + 1) * 10 ^ length fp \<le> 2 ^ 53"
  shows "py_float (ip @ CHR ''.'' # fp) = Inr x \<Longrightarrow> py_int x = Inr (int (nat_of_digits ip))"
proof -
  define I where "I = nat_of_digits ip"
  define M where "M = nat_of_digits (ip @ fp)"
  define k where "k = length fp"
  assume "py_float (ip @ CHR ''.'' # fp) = Inr x"
  with py_float_point [OF ip fp]
  have x: "x = (if M = 0 then Finite False 0 0 else round_binary64 False M (10 ^ k))"
    by (simp add: M_def k_def)
  have M_eq: "M = I * 10 ^ k + nat_of_digits fp"
    by (simp add: M_def I_def k_def nat_of_digits_append)
  have F_lt: "nat_of_digits fp < 10 ^ k" unfolding k_def using fp by (rule nat_of_digits_less)
  show ?thesis
  proof (cases "M = 0")
    case True
    then have "I = 0" using M_eq by simp
    with True show ?thesis using x by (simp add: I_def)
  next
    case False
    have lo: "I * 10 ^ k \<le> M" using M_eq by simp
    have hi: "M < (I + 1) * 10 ^ k" using M_eq F_lt by (simp add: algebra_simps)
    have rm: "(I + 1) * 10 ^ k \<le> 2 ^ 53" using room by (simp add: I_def k_def)
    have "py_int (round_binary64 False M (10 ^ k)) = Inr (int I)"
      using py_int_round_binary64 [OF _ _ lo hi rm, of False] False by simp
    then show ?thesis using x False by (simp add: I_def)
  qed
qed

lemma py_float_returns_digits:
  assumes "ip \<noteq> []" "\<forall>c \<in> set ip. is_digit c" "\<forall>c \<in> set fp. is_digit c"
  shows "\<exists>x. py_float ip = Inr x" "\<exists>x. py_float (ip @ CHR ''.'' # fp) = Inr x"
  using py_float_integer [OF assms(1,2)] py_float_point [OF assms] by simp_all

text \<open>
  The price of any cell text that, stripped and with its pound signs removed, is a
  decimal literal of that kind.
\<close>

lemma parse_price_filtered:
  assumes ip: "ip \<noteq> []" "\<forall>c \<in> set ip. is_digit c" and fp: "\<forall>c \<in> set fp. is_digit c"
  shows "filter (\<lambda>c. c \<noteq> pound) (strip text) = ip \<Longrightarrow> nat_of_digits ip + 1 \<le> 2 ^ 53 \<Longrightarrow>
         parse_price text = Inr (int (nat_of_digits ip))"
    and "filter (\<lambda>c. c \<noteq> pound) (strip text) = ip @ CHR ''.'' # fp \<Longrightarrow>
         (nat_of_digits ip + 1) * 10 ^ length fp \<le> 2 ^ 53 \<Longrightarrow>
         parse_price text = Inr (int (nat_of_digits ip))"
proof -
  assume f: "filter (\<lambda>c. c \<noteq> pound) (strip text) = ip"
    and room: "nat_of_digits ip + 1 \<le> 2 ^ 53"
  obtain x where x: "py_float ip = Inr x" using py_float_returns_digits(1) [OF ip fp] by blast
  from price_of_digits [OF ip room x] x f
  show "parse_price text = Inr (int (nat_of_digits ip))" by (simp add: parse_price_def)
next
  assume f: "filter (\<lambda>c. c \<noteq> pound) (strip text) = ip @ CHR ''.'' # fp"
    and room: "(nat_of_digits ip + 1) * 10 ^ length fp \<le> 2 ^ 53"
  obtain x where x: "py_float (ip @ CHR ''.'' # fp) = Inr x"
    using py_float_returns_digits(2) [OF ip fp] by blast
  from price_of_point [OF ip fp room x] x f
  show "parse_price text = Inr (int (nat_of_digits ip))" by (simp add: parse_price_def)
qed

lemma digits_room:
  assumes "\<forall>c \<in> set ip. is_digit c" "length ip + k \<le> 15"
  shows "(nat_of_digits ip + 1) * 10 ^ k \<le> 2 ^ 53"
proof -
  have I_lt: "nat_of_digits ip < 10 ^ length ip" using assms(1) by (rule nat_of_digits_less)
  have "(nat_of_digits ip + 1) * 10 ^ k \<le> 10 ^ length ip * 10 ^ k"
    using I_lt by (intro mult_le_mono1) simp
  also have "\<dots> = 10 ^ (length ip + k)" by (simp add: power_add)
  also have "\<dots> \<le> 10 ^ 15" using assms(2) by (intro power_increasing) simp_all
  also have "\<dots> \<le> 2 ^ 53" by (rule pow10_15_le)
  finally show ?thesis .
qed

lemma strip_pound_digits:
  assumes ip: "ip \<noteq> []" "\<forall>c \<in> set ip. is_digit c"
    and r: "\<forall>c \<in> set rest. is_digit c \<or> c = CHR ''.''"
  shows "filter (\<lambda>c. c \<noteq> pound) (strip (pound # ip @ rest)) = ip @ rest"
proof -
  have psp: "\<not> isspace pound" by (simp add: isspace_def pound_def)
  have no_pound: "pound \<notin> set (ip @ rest)"
  proof
    assume "pound \<in> set (ip @ rest)"
    with ip(2) r have "is_digit pound \<or> pound = CHR ''.''" by auto
    then show False by (auto simp: is_digit_range pound_def)
  qed
  have "last (pound # ip @ rest) = last (ip @ rest)" using ip(1) by simp
  moreover have "last (ip @ rest) \<in> set (ip @ rest)" using ip(1) by (intro last_in_set) simp
  ultimately have "is_digit (last (pound # ip @ rest)) \<or> last (pound # ip @ rest) = CHR ''.''"
    using ip(2) r by auto
  then have "\<not> isspace (last (pound # ip @ rest))"
  proof
    assume "is_digit (last (pound # ip @ rest))"
    then show ?thesis by (rule digit_not_space)
  next
    assume "last (pound # ip @ rest) = CHR ''.''"
    then show ?thesis by (simp add: isspace_def)
  qed
  then have "strip (pound # ip @ rest) = pound # ip @ rest"
    using psp by (intro strip_id) simp_all
  moreover have "filter (\<lambda>c. c \<noteq> pound) (ip @ rest) = ip @ rest"
    using no_pound by (intro filter_True) auto
  ultimately show ?thesis by simp
qed

lemma parse_price_digits:
  assumes ip: "ip \<noteq> []" "\<forall>c \<in> set ip. is_digit c" and fp: "\<forall>c \<in> set fp. is_digit c"
    and len: "length ip + length fp \<le> 15"
  shows "parse_price (pound # ip) = Inr (int (nat_of_digits ip))"
    and "parse_price (pound # ip @ CHR ''.'' # fp) = Inr (int (nat_of_digits ip))"
proof -
  have e: "\<forall>c \<in> set []. is_digit c \<or> c = CHR ''.''" by simp
  have r: "\<forall>c \<in> set (CHR ''.'' # fp). is_digit c \<or> c = CHR ''.''" using fp by simp
  have room0: "nat_of_digits ip + 1 \<le> 2 ^ 53"
    using digits_room [OF ip(2), of 0] len by simp
  from parse_price_filtered(1) [OF ip fp strip_pound_digits [OF ip e, unfolded append_Nil2] room0]
  show "parse_price (pound # ip) = Inr (int (nat_of_digits ip))" .
  from parse_price_filtered(2) [OF ip fp strip_pound_digits [OF ip r] digits_room [OF ip(2) len]]
  show "parse_price (pound # ip @ CHR ''.'' # fp) = Inr (int (nat_of_digits ip))" .
qed

section \<open>The ticket lists stay aligned\<close>

lemma lists_aligned_seed: "lists_aligned (seed_lists d)"
  by (simp add: lists_aligned_def seed_lists_def)

lemma lists_aligned_append: "lists_aligned l \<Longrightarrow> lists_aligned (append_lists d l)"
  by (simp add: lists_aligned_def append_lists_def)

lemma ticket_details_ok_modify:
  "ticket_details_ok td \<Longrightarrow> ticket_details_ok (dict_modify k (append_lists d) td)"
  by (induction td)
    (auto simp: ticket_details_ok_def dict_modify_def lists_aligned_append split: if_splits)

lemma step_preserves_ok:
  assumes "ticket_details_ok td" "ticket_row_step r (td, cur) = Inr (td', cur')"
  shows "ticket_details_ok td'"
  using assms(2)
proof (cases rule: ticket_row_step_cases)
  case (seed d k)
  with assms(1) show ?thesis by (simp add: ticket_details_ok_def lists_aligned_seed)
next
  case (skip d k l)
  with assms(1) show ?thesis by simp
next
  case (cont d l)
  with assms(1) show ?thesis by (simp add: ticket_details_ok_modify)
qed

lemma loop_preserves_ok:
  "ticket_rows_loop rows (td, cur) = Inr m \<Longrightarrow> ticket_details_ok td \<Longrightarrow> ticket_details_ok m"
proof (induction rows arbitrary: td cur)
  case Nil
  then show ?case by simp
next
  case (Cons r rows)
  from Cons.prems(1) obtain td' cur' where
    step: "ticket_row_step r (td, cur) = Inr (td', cur')" and
    rest: "ticket_rows_loop rows (td', cur') = Inr m"
    by (auto split: sum.splits)
  from step_preserves_ok [OF Cons.prems(2) step] show ?case by (rule Cons.IH [OF rest])
qed

lemma extract_ok: "extract_ticket_price_options rows = Inr m \<Longrightarrow> ticket_details_ok m"
  unfolding extract_ticket_price_options_def
  by (erule loop_preserves_ok) (simp add: ticket_details_ok_def)

lemma ticket_details_ok_iff:
  "ticket_details_ok td \<longleftrightarrow> (\<forall>k l. (k, l) \<in> set td \<longrightarrow> lists_aligned l)"
  by (auto simp: ticket_details_ok_def list_all_iff)

lemma first_row_continuation:
  assumes "select_one_event r = None"
  shows "extract_ticket_price_options (r # rs) =
           (case row_ticket_data r of Inl e \<Rightarrow> Inl e | Inr d \<Rightarrow> Inl (KeyError []))"
  using assms
  by (simp add: extract_ticket_price_options_def ticket_row_step_def split: sum.splits)

section \<open>Evaluation on example inputs\<close>

lemma parse_price_small:
  "parse_price (pound # ''10'') = Inr 10"
  "parse_price (pound # ''5'') = Inr 5"
  "parse_price (pound # ''20'') = Inr 20"
  "parse_price (pound # ''9'') = Inr 9"
  "parse_price (pound # ''15'') = Inr 15"
  "parse_price (pound # ''25'') = Inr 25"
  using parse_price_digits(1) [of "''10''" "[]"] parse_price_digits(1) [of "''5''" "[]"]
    parse_price_digits(1) [of "''20''" "[]"] parse_price_digits(1) [of "''9''" "[]"]
    parse_price_digits(1) [of "''15''" "[]"] parse_price_digits(1) [of "''25''" "[]"]
  by (simp_all add: is_digit_range nat_of_digits_def digit_val_def)

lemma parse_price_pence:
  "parse_price (pound # ''12.50'') = Inr 12"
  "parse_price (pound # ''12.99'') = Inr 12"
  using parse_price_digits(2) [of "''12''" "''50''"] parse_price_digits(2) [of "''12''" "''99''"]
  by (simp_all add: is_digit_range nat_of_digits_def digit_val_def)

lemma parse_price_free: "parse_price ''free'' = Inl ValueError"
  by (simp add: parse_price_def py_float_def strip_def lstrip_def rstrip_def isspace_def
        float_strip_def float_isspace_def pound_def is_digit_def lower_def lower_char_def eq_char_of_iff Let_def)

lemma example_cell_split:
  "take 2 (split_on (CHR 0x0A) (strip example_cell)) = [''Standard'', ''In-person only'']"
  by (simp add: example_cell_def strip_def lstrip_def rstrip_def isspace_def)

lemma row_ticket_data_example:
  "parse_price p = Inr n \<Longrightarrow>
   row_ticket_data \<lparr>anchor_hrefs = hs, td_texts = ['''', '''', example_cell, p]\<rparr> =
     Inr \<lparr>ticket_type = ''Standard'', venue_type = ''In-person only'',
          is_streaming = False, ticket_price_gbp = n\<rparr>"
  by (simp add: row_ticket_data_def example_cell_split streaming_known_venues)

lemma row_ticket_data_free:
  "row_ticket_data \<lparr>anchor_hrefs = hs, td_texts = ['''', '''', example_cell, ''free'']\<rparr> =
     Inl ValueError"
  by (simp add: row_ticket_data_def example_cell_split parse_price_free)

lemma extract_example_rows:
  "extract_ticket_price_options example_rows =
     Inr [(''/event/1'',
           \<lparr>ticket_type = [''Standard'', ''Standard''],
            venue_type = [''In-person only'', ''In-person only''],
            is_streaming = [False, False], ticket_price_gbp = [10, 5]\<rparr>),
          (''/event/2'',
           \<lparr>ticket_type = [''Standard''], venue_type = [''In-person only''],
            is_streaming = [False], ticket_price_gbp = [20]\<rparr>)]"
  by (simp add: extract_ticket_price_options_def example_rows_def ticket_row_step_def
        row_ticket_data_example parse_price_small select_one_event_def
        seed_lists_def append_lists_def dict_modify_def)

section \<open>When the extractor returns, and what it raises\<close>

lemma loop_returns:
  "\<forall>r \<in> set rows. \<exists>d. row_ticket_data r = Inr d \<Longrightarrow> map_of td cur \<noteq> None \<Longrightarrow>
   \<exists>m. ticket_rows_loop rows (td, cur) = Inr m"
proof (induction rows arbitrary: td cur)
  case Nil
  then show ?case by simp
next
  case (Cons r rows)
  from Cons.prems(1) obtain d where d: "row_ticket_data r = Inr d" by auto
  from Cons.prems(1) have rest: "\<forall>r \<in> set rows. \<exists>d. row_ticket_data r = Inr d" by simp
  from Cons.prems(2) obtain l0 where l0: "map_of td cur = Some l0" by auto
  show ?case
  proof (cases "select_one_event r")
    case None
    have step: "ticket_row_step r (td, cur) = Inr (dict_modify cur (append_lists d) td, cur)"
      using d None l0 by (simp add: ticket_row_step_def)
    have "map_of (dict_modify cur (append_lists d) td) cur \<noteq> None"
      using l0 by (simp add: map_of_dict_modify)
    from Cons.IH [OF rest this] show ?thesis using step by simp
  next
    case (Some k)
    show ?thesis
    proof (cases "map_of td k")
      case None
      have step: "ticket_row_step r (td, cur) = Inr (td @ [(k, seed_lists d)], k)"
        using d Some None by (simp add: ticket_row_step_def)
      have "map_of (td @ [(k, seed_lists d)]) k \<noteq> None"
        using None by (simp add: map_of_snoc)
      from Cons.IH [OF rest this] show ?thesis using step by simp
    next
      case (Some l)
      have step: "ticket_row_step r (td, cur) = Inr (td, k)"
        using d \<open>select_one_event r = Some k\<close> Some by (simp add: ticket_row_step_def)
      have "map_of td k \<noteq> None" using Some by simp
      from Cons.IH [OF rest this] show ?thesis using step by simp
    qed
  qed
qed

lemma extract_returns_iff:
  "(\<exists>m. extract_ticket_price_options rows = Inr m) \<longleftrightarrow>
     (\<forall>r \<in> set rows. \<exists>d. row_ticket_data r = Inr d)
     \<and> (rows = [] \<or> select_one_event (hd rows) \<noteq> None)"
proof
  assume "\<exists>m. extract_ticket_price_options rows = Inr m"
  then obtain m where m: "extract_ticket_price_options rows = Inr m" by blast
  then have loop: "ticket_rows_loop rows ([], []) = Inr m"
    by (simp add: extract_ticket_price_options_def)
  have parse: "\<forall>r \<in> set rows. \<exists>d. row_ticket_data r = Inr d"
    using loop_rows_parse [OF loop] by blast
  have "rows = [] \<or> select_one_event (hd rows) \<noteq> None"
  proof (cases rows)
    case Nil
    then show ?thesis by simp
  next
    case (Cons r rs)
    show ?thesis
    proof (rule ccontr)
      assume "\<not> (rows = [] \<or> select_one_event (hd rows) \<noteq> None)"
      then have "select_one_event r = None" using Cons by simp
      from first_row_continuation [OF this, of rs] m Cons show False
        by (simp split: sum.splits)
    qed
  qed
  with parse show "(\<forall>r \<in> set rows. \<exists>d. row_ticket_data r = Inr d)
     \<and> (rows = [] \<or> select_one_event (hd rows) \<noteq> None)" by blast
next
  assume h: "(\<forall>r \<in> set rows. \<exists>d. row_ticket_data r = Inr d)
     \<and> (rows = [] \<or> select_one_event (hd rows) \<noteq> None)"
  show "\<exists>m. extract_ticket_price_options rows = Inr m"
  proof (cases rows)
    case Nil
    then show ?thesis by (simp add: extract_ticket_price_options_def)
  next
    case (Cons r rs)
    with h obtain k where k: "select_one_event r = Some k" by auto
    from h Cons obtain d where d: "row_ticket_data r = Inr d" by auto
    have step: "ticket_row_step r ([], []) = Inr ([(k, seed_lists d)], k)"
      using k d by (simp add: ticket_row_step_def)
    have rest: "\<forall>r \<in> set rs. \<exists>d. row_ticket_data r = Inr d" using h Cons by simp
    have "map_of [(k, seed_lists d)] k \<noteq> None" by simp
    from loop_returns [OF rest this] show ?thesis
      using step Cons by (simp add: extract_ticket_price_options_def)
  qed
qed

lemma select_one_event_None_iff:
  "select_one_event r = None \<longleftrightarrow> (\<forall>h \<in> set (anchor_hrefs r). \<not> prefix ''/event'' h)"
  by (auto simp: select_one_event_def find_None_iff)

lemma select_one_event_Some:
  "select_one_event r = Some k \<Longrightarrow> k \<in> set (anchor_hrefs r) \<and> prefix ''/event'' k"
  unfolding select_one_event_def find_Some_iff by auto

lemma extract_repeated_key:
  assumes "select_one_event r1 = Some K" "select_one_event r2 = Some K"
    "select_one_event r3 = None"
    "row_ticket_data r1 = Inr d1" "row_ticket_data r2 = Inr d2" "row_ticket_data r3 = Inr d3"
  shows "extract_ticket_price_options [r1, r2, r3] = Inr [(K, lists_of [d1, d3])]"
  using assms
  by (simp add: extract_ticket_price_options_def ticket_row_step_def dict_modify_def
        lists_of_def append_lists_def seed_lists_def)

lemma str_nat_facts:
  "str_nat n \<noteq> [] \<and> (\<forall>c \<in> set (str_nat n). is_digit c) \<and> nat_of_digits (str_nat n) = n"
proof (induction n rule: str_nat.induct)
  case (1 n)
  have digit: "is_digit (char_of (48 + k)) \<and> digit_val (char_of (48 + k)) = k"
    if "k < 10" for k :: nat
    using that by (simp add: is_digit_range digit_val_def)
  show ?case
  proof (cases "n < 10")
    case True
    then have s: "str_nat n = [char_of (48 + n)]" by (simp add: str_nat.simps)
    show ?thesis using digit [OF True] by (simp add: s nat_of_digits_def)
  next
    case False
    then have s: "str_nat n = str_nat (n div 10) @ [char_of (48 + n mod 10)]"
      by (subst str_nat.simps) simp
    have m: "n mod 10 < 10" by simp
    from "1.IH" False have ih: "str_nat (n div 10) \<noteq> []"
      "\<forall>c \<in> set (str_nat (n div 10)). is_digit c"
      "nat_of_digits (str_nat (n div 10)) = n div 10"
      by simp_all
    have "nat_of_digits (str_nat n) = (n div 10) * 10 + n mod 10"
      unfolding s nat_of_digits_append using ih(3) digit [OF m]
      by (simp add: nat_of_digits_def)
    then show ?thesis using ih digit [OF m] by (simp add: s)
  qed
qed

lemma py_float_errors: "py_float s = Inl e \<Longrightarrow> e = ValueError"
  unfolding py_float_def Let_def
  by (simp split: if_splits prod.splits option.splits)

lemma py_int_errors: "py_int x = Inl e \<Longrightarrow> e = ValueError \<or> e = OverflowError"
  by (cases x) (auto simp: Let_def)

lemma parse_price_errors: "parse_price t = Inl e \<Longrightarrow> e = ValueError \<or> e = OverflowError"
  unfolding parse_price_def
  using py_float_errors py_int_errors by (auto split: sum.splits)

lemma row_ticket_data_errors:
  assumes "row_ticket_data r = Inl e"
  shows "e = IndexError \<or> e = ValueError \<or> e = OverflowError"
proof -
  have "e = IndexError \<or> e = ValueError \<or> (\<exists>t. parse_price t = Inl e)"
    using assms unfolding row_ticket_data_def Let_def
    by (auto split: list.splits sum.splits)
  then show ?thesis using parse_price_errors by blast
qed

lemma round_binary64_nines:
  "round_binary64 False 99999999999999999999 (10 ^ 20) = Finite False 9007199254740992 (- 53)"
  by (simp add: round_binary64_def floor_log2_def round_half_even_def bitlen.simps Let_def)

lemma parse_price_nines: "parse_price (pound # ''0.99999999999999999999'') = Inr 1"
proof -
  have ip: "''0'' \<noteq> []" "\<forall>c \<in> set ''0''. is_digit c" by (simp_all add: is_digit_range)
  have fp: "\<forall>c \<in> set ''99999999999999999999''. is_digit c" by (simp add: is_digit_range)
  have r: "\<forall>c \<in> set (CHR ''.'' # ''99999999999999999999''). is_digit c \<or> c = CHR ''.''"
    using fp by simp
  have M: "nat_of_digits (''0'' @ ''99999999999999999999'') = 99999999999999999999"
    by (simp add: nat_of_digits_def digit_val_def)
  have f: "filter (\<lambda>c. c \<noteq> pound) (strip (pound # ''0'' @ CHR ''.'' # ''99999999999999999999'')) =
             ''0'' @ CHR ''.'' # ''99999999999999999999''"
    by (rule strip_pound_digits [OF ip r])
  have "py_float (''0'' @ CHR ''.'' # ''99999999999999999999'') =
          Inr (Finite False 9007199254740992 (- 53))"
    unfolding py_float_point [OF ip fp] M using round_binary64_nines by simp
  with f have "parse_price (pound # ''0'' @ CHR ''.'' # ''99999999999999999999'') =
      py_int (Finite False 9007199254740992 (- 53))"
    by (simp only: parse_price_def sum.case)
  then show ?thesis by simp
qed

lemma price_inf: "parse_price (pound # ''inf'') = Inl OverflowError"
  by (simp add: parse_price_def py_float_def strip_def lstrip_def rstrip_def isspace_def
        float_strip_def float_isspace_def pound_def is_digit_def lower_def lower_char_def
        eq_char_of_iff Let_def)

lemma rows_grouped_general:
  assumes ex: "extract_ticket_price_options rows = Inr m"
  shows "(\<forall>K. map_of m K = map_option lists_of (group_rows K (parsed_rows rows)))
      \<and> distinct (map fst m)
      \<and> set (map fst m) = {k. \<exists>r \<in> set rows. select_one_event r = Some k}"
proof -
  have g: "\<forall>K. map_of m K = map_option lists_of (group_rows K (parsed_rows rows))"
    using extract_groups [OF ex] by blast
  from ex have loop: "ticket_rows_loop rows ([], []) = Inr m"
    by (simp add: extract_ticket_price_options_def)
  from loop_keys [OF loop] have "distinct (map fst m)"
    "set (map fst m) = {k. \<exists>r \<in> set rows. select_one_event r = Some k}" by simp_all
  with g show ?thesis by blast
qed

lemma rows_grouped_three:
  assumes h: "select_one_event r1 = Some K1 \<and> select_one_event r2 = None
        \<and> select_one_event r3 = Some K2 \<and> K1 \<noteq> K2
        \<and> row_ticket_data r1 = Inr d1 \<and> row_ticket_data r2 = Inr d2
        \<and> row_ticket_data r3 = Inr d3
        \<and> ticket_price_gbp d1 = 10 \<and> ticket_price_gbp d2 = 5 \<and> ticket_price_gbp d3 = 20"
  shows "\<exists>l1 l2. extract_ticket_price_options [r1, r2, r3] = Inr [(K1, l1), (K2, l2)]
         \<and> ticket_price_gbp l1 = [10, 5] \<and> ticket_price_gbp l2 = [20]"
proof -
  from h have "K2 \<noteq> K1" by auto
  with h have "extract_ticket_price_options [r1, r2, r3] =
      Inr [(K1, append_lists d2 (seed_lists d1)), (K2, seed_lists d3)]"
    by (simp add: extract_ticket_price_options_def ticket_row_step_def dict_modify_def)
  moreover have "ticket_price_gbp (append_lists d2 (seed_lists d1)) = [10, 5]"
    "ticket_price_gbp (seed_lists d3) = [20]"
    using h by (simp_all add: append_lists_def seed_lists_def)
  ultimately show ?thesis by blast
qed

section \<open>Facts about the frames\<close>

lemma explode_Cons:
  "explode f ((k, xs) # column) =
     (if xs = [] then [(k, PNaN)] else map (\<lambda>x. (k, f x)) xs) @ explode f column"
  by (simp add: explode_def)

lemma explode_index:
  "map fst (explode f (column_of field m)) =
     concat (map (\<lambda>(k, l). replicate (max 1 (length (field l))) k) m)"
proof (induction m)
  case Nil
  show ?case by (simp add: explode_def column_of_def)
next
  case (Cons p m)
  obtain k l where p: "p = (k, l)" by (cases p)
  have "column_of field (p # m) = (k, field l) # column_of field m"
    by (simp add: column_of_def p)
  with Cons.IH show ?case
    by (cases "field l") (simp_all add: explode_Cons p comp_def map_replicate_const)
qed

lemma frame_of_columns_append:
  assumes "length vt = length tt" "length st = length tt" "length pr = length tt"
  shows "frame_of_columns (tt @ tt') (vt @ vt') (st @ st') (pr @ pr') =
           frame_of_columns tt vt st pr @ frame_of_columns tt' vt' st' pr'"
  using assms
proof (induction tt arbitrary: vt st pr)
  case Nil
  then show ?case by simp
next
  case (Cons a tt)
  from Cons.prems obtain b vt0 where vt: "vt = b # vt0" by (cases vt) auto
  from Cons.prems obtain c st0 where st: "st = c # st0" by (cases st) auto
  from Cons.prems obtain d pr0 where pr: "pr = d # pr0" by (cases pr) auto
  from Cons.prems have "length vt0 = length tt" "length st0 = length tt" "length pr0 = length tt"
    by (simp_all add: vt st pr)
  from Cons.IH [OF this] show ?case
    by (cases a; cases b; cases c; cases d) (simp add: vt st pr)
qed

lemma frame_of_columns_maps:
  assumes "length bs = length as" "length cs = length as" "length ds = length as"
  shows "frame_of_columns (map (\<lambda>x. (k, f x)) as) (map (\<lambda>x. (k, g x)) bs)
           (map (\<lambda>x. (k, h x)) cs) (map (\<lambda>x. (k, j x)) ds) =
         map (\<lambda>i. (k, \<lparr>ticket_type = f (as ! i), venue_type = g (bs ! i),
                        is_streaming = h (cs ! i), ticket_price_gbp = j (ds ! i)\<rparr>))
           [0 ..< length as]"
  using assms
proof (induction as arbitrary: bs cs ds)
  case Nil
  then show ?case by simp
next
  case (Cons a as)
  from Cons.prems obtain b bs0 where bs: "bs = b # bs0" by (cases bs) auto
  from Cons.prems obtain c cs0 where cs: "cs = c # cs0" by (cases cs) auto
  from Cons.prems obtain d ds0 where ds: "ds = d # ds0" by (cases ds) auto
  from Cons.prems have "length bs0 = length as" "length cs0 = length as" "length ds0 = length as"
    by (simp_all add: bs cs ds)
  from Cons.IH [OF this] show ?case
    by (simp add: bs cs ds map_upt_Suc del: upt_Suc)
qed

lemma frame_of_entry:
  assumes "same_lengths l"
  shows "frame_of_columns
           (if ticket_type l = [] then [(k, PNaN)] else map (\<lambda>x. (k, PStr x)) (ticket_type l))
           (if venue_type l = [] then [(k, PNaN)] else map (\<lambda>x. (k, PStr x)) (venue_type l))
           (if is_streaming l = [] then [(k, PNaN)] else map (\<lambda>x. (k, PBool x)) (is_streaming l))
           (if ticket_price_gbp l = [] then [(k, PNaN)]
            else map (\<lambda>x. (k, PInt x)) (ticket_price_gbp l)) =
         entry_rows k l"
proof (cases "ticket_price_gbp l = []")
  case True
  with assms have "length (ticket_type l) = 0 \<and> length (venue_type l) = 0
      \<and> length (is_streaming l) = 0"
    unfolding same_lengths_def by (metis list.size(3))
  then have "ticket_type l = []" "venue_type l = []" "is_streaming l = []"
    by simp_all
  with True show ?thesis by (simp add: entry_rows_def nan_cells_def)
next
  case False
  with assms have ne: "ticket_type l \<noteq> []" "venue_type l \<noteq> []" "is_streaming l \<noteq> []"
    by (auto simp: same_lengths_def)
  from assms have len: "length (venue_type l) = length (ticket_type l)"
    "length (is_streaming l) = length (ticket_type l)"
    "length (ticket_price_gbp l) = length (ticket_type l)"
    by (simp_all add: same_lengths_def)
  show ?thesis
    using frame_of_columns_maps [OF len, of k PStr PStr PBool PInt]
    by (simp add: False ne entry_rows_def cells_at_def len)
qed

lemma length_entry_column:
  "length (if xs = [] then [(k, PNaN)] else map (\<lambda>x. (k, f x)) xs) = max 1 (length xs)"
  by (cases xs) simp_all

lemma frame_of_exploded:
  assumes "list_all (\<lambda>(k, l). same_lengths l) m"
  shows "frame_of_columns (explode PStr (column_of ticket_type m))
           (explode PStr (column_of venue_type m))
           (explode PBool (column_of is_streaming m))
           (explode PInt (column_of ticket_price_gbp m)) =
         concat (map (\<lambda>(k, l). entry_rows k l) m)"
  using assms
proof (induction m)
  case Nil
  show ?case by (simp add: explode_def column_of_def)
next
  case (Cons p m)
  obtain k l where p: "p = (k, l)" by (cases p)
  from Cons.prems p have sl: "same_lengths l" and rest: "list_all (\<lambda>(k, l). same_lengths l) m"
    by simp_all
  have col: "\<And>field :: ticket_lists \<Rightarrow> 'b list.
               column_of field (p # m) = (k, field l) # column_of field m"
    by (simp add: column_of_def p)
  from sl have len:
    "max 1 (length (venue_type l)) = max 1 (length (ticket_type l))"
    "max 1 (length (is_streaming l)) = max 1 (length (ticket_type l))"
    "max 1 (length (ticket_price_gbp l)) = max 1 (length (ticket_type l))"
    by (simp_all add: same_lengths_def)
  show ?case
    unfolding col explode_Cons
    by (subst frame_of_columns_append)
       (simp_all only: length_entry_column len frame_of_entry [OF sl] Cons.IH [OF rest]
          p list.map concat.simps prod.case)
qed

lemma ticket_df_same_lengths:
  assumes "list_all (\<lambda>(k, l). same_lengths l) m"
  shows "ticket_df m =
           Some \<lparr>ticket_columns = ''short_url'' # (if m = [] then [] else TICKET_METADATA_COLUMNS),
                 ticket_rows = concat (map (\<lambda>(k, l). entry_rows k l) m)\<rparr>"
proof (cases "m = []")
  case True
  then show ?thesis by (simp add: ticket_df_def)
next
  case False
  have "\<And>k l. (k, l) \<in> set m \<Longrightarrow> same_lengths l"
    using assms by (auto simp: list_all_iff)
  then have idx:
    "map (\<lambda>(k, l). replicate (max 1 (length (venue_type l))) k) m =
       map (\<lambda>(k, l). replicate (max 1 (length (ticket_type l))) k) m"
    "map (\<lambda>(k, l). replicate (max 1 (length (is_streaming l))) k) m =
       map (\<lambda>(k, l). replicate (max 1 (length (ticket_type l))) k) m"
    "map (\<lambda>(k, l). replicate (max 1 (length (ticket_price_gbp l))) k) m =
       map (\<lambda>(k, l). replicate (max 1 (length (ticket_type l))) k) m"
    by (auto simp: same_lengths_def)
  have index:
    "map fst (explode PStr (column_of venue_type m)) =
       map fst (explode PStr (column_of ticket_type m))"
    "map fst (explode PBool (column_of is_streaming m)) =
       map fst (explode PStr (column_of ticket_type m))"
    "map fst (explode PInt (column_of ticket_price_gbp m)) =
       map fst (explode PStr (column_of ticket_type m))"
    by (simp_all only: explode_index idx)
  show ?thesis
    by (simp add: ticket_df_def False Let_def index frame_of_exploded [OF assms])
qed

lemma filter_entry_rows:
  "filter (\<lambda>t. fst t = K) (entry_rows k l) = (if k = K then entry_rows k l else [])"
  by (auto simp: entry_rows_def filter_empty_conv)

lemma filter_exploded_rows:
  assumes "distinct (map fst m)"
  shows "filter (\<lambda>t. fst t = K) (concat (map (\<lambda>(k, l). entry_rows k l) m)) =
           (case map_of m K of None \<Rightarrow> [] | Some l \<Rightarrow> entry_rows K l)"
  using assms
proof (induction m)
  case Nil
  then show ?case by simp
next
  case (Cons p m)
  obtain k l where p: "p = (k, l)" by (cases p)
  from Cons.prems p have notin: "k \<notin> fst ` set m" and d: "distinct (map fst m)" by auto
  show ?case
  proof (cases "k = K")
    case True
    with notin have "map_of m K = None" by (simp add: map_of_eq_None_iff)
    with Cons.IH [OF d] True p show ?thesis by (simp add: filter_entry_rows)
  next
    case False
    with Cons.IH [OF d] p show ?thesis by (simp add: filter_entry_rows)
  qed
qed

lemma extract_distinct_keys:
  "extract_ticket_price_options rs = Inr m \<Longrightarrow> distinct (map fst m)"
  using loop_keys [of rs "[]" "[]" m] by (simp add: extract_ticket_price_options_def)

lemma extract_same_lengths:
  assumes "extract_ticket_price_options rs = Inr m"
  shows "list_all (\<lambda>(k, l). same_lengths l) m"
  using extract_ok [OF assms]
  by (auto simp: ticket_details_ok_def list_all_iff lists_aligned_def same_lengths_def)

lemma extract_entry_not_empty:
  assumes "extract_ticket_price_options rs = Inr m" "map_of m K = Some l"
  shows "ticket_price_gbp l \<noteq> []"
proof -
  from assms(2) have "(K, l) \<in> set m" by (rule map_of_SomeD)
  with extract_ok [OF assms(1)] have "lists_aligned l" by (simp add: ticket_details_ok_iff)
  then show ?thesis by (auto simp: lists_aligned_def)
qed

lemma ticket_df_of_extract:
  assumes "extract_ticket_price_options rs = Inr m"
  shows "ticket_df m =
           Some \<lparr>ticket_columns = ''short_url'' # (if m = [] then [] else TICKET_METADATA_COLUMNS),
                 ticket_rows = concat (map (\<lambda>(k, l). entry_rows k l) m)\<rparr>"
  by (rule ticket_df_same_lengths) (rule extract_same_lengths [OF assms])

lemma entry_rows_not_empty:
  "ticket_price_gbp l \<noteq> [] \<Longrightarrow>
     entry_rows K l = map (\<lambda>i. (K, cells_at l i)) [0 ..< length (ticket_price_gbp l)]"
  by (simp add: entry_rows_def)

lemma merged_df_returns:
  "(\<exists>merged. merged_df event_df tickets = Some merged) \<longleftrightarrow>
     set TICKET_METADATA_COLUMNS \<subseteq> set (ticket_columns tickets)"
  by (auto simp: merged_df_def ALL_COLUMNS_def EVENT_METADATA_COLUMNS_def
        TICKET_METADATA_COLUMNS_def)

lemma merged_df_rows:
  assumes "merged_df event_df tickets = Some merged"
  shows "merged =
           concat (map (\<lambda>e. map (\<lambda>t. (e, snd t))
                               (filter (\<lambda>t. fst t = short_url e) (ticket_rows tickets)))
                     event_df)"
  using assms by (simp add: merged_df_def split: if_splits)

lemma joined_rows_member:
  "(e, c) \<in> set (concat (map (\<lambda>e. map (\<lambda>t. (e, snd t))
                                 (filter (\<lambda>t. fst t = short_url e) rows)) events))
     \<longleftrightarrow> e \<in> set events \<and> (short_url e, c) \<in> set rows"
  by (induction events) (auto simp: image_iff)

lemma joined_rows_of_event:
  "filter (\<lambda>r. fst r = e)
     (concat (map (\<lambda>e. map (\<lambda>t. (e, snd t)) (filter (\<lambda>t. fst t = short_url e) rows)) events)) =
   concat (replicate (count_list events e)
             (map (Pair e) (map snd (filter (\<lambda>t. fst t = short_url e) rows))))"
proof (induction events)
  case Nil
  show ?case by simp
next
  case (Cons e' events)
  have one: "filter (\<lambda>r. fst r = e)
               (map (\<lambda>t. (e', snd t)) (filter (\<lambda>t. fst t = short_url e') rows)) =
             (if e' = e then map (Pair e) (map snd (filter (\<lambda>t. fst t = short_url e) rows))
              else [])"
    by (auto simp: filter_map comp_def filter_empty_conv)
  show ?case by (simp add: one Cons.IH del: filter_map)
qed

lemma joined_rows_no_event:
  assumes "\<forall>e \<in> set events. short_url e \<noteq> K"
  shows "filter (\<lambda>r. short_url (fst r) = K)
           (concat (map (\<lambda>e. map (\<lambda>t. (e, snd t)) (filter (\<lambda>t. fst t = short_url e) rows)) events)) = []"
  using assms by (auto simp: filter_empty_conv)

lemma ticket_df_example:
  "ticket_df example_ticket_details =
     Some \<lparr>ticket_columns = ''short_url'' # TICKET_METADATA_COLUMNS,
           ticket_rows =
             [(''/event/1'', \<lparr>ticket_type = PStr ''Standard'', venue_type = PStr ''In-person only'',
                              is_streaming = PBool False, ticket_price_gbp = PInt 10\<rparr>),
              (''/event/1'', \<lparr>ticket_type = PStr ''Standard'', venue_type = PStr ''In-person only'',
                              is_streaming = PBool False, ticket_price_gbp = PInt 5\<rparr>),
              (''/event/2'', \<lparr>ticket_type = PStr ''Standard'', venue_type = PStr ''In-person only'',
                              is_streaming = PBool False, ticket_price_gbp = PInt 20\<rparr>)]\<rparr>"
  by (simp add: ticket_df_def example_ticket_details_def explode_def column_of_def Let_def)

lemma extract_example_details:
  "extract_ticket_price_options example_rows = Inr example_ticket_details"
  by (simp add: extract_example_rows example_ticket_details_def)

section \<open>Claims\<close>

text \<open>
  C8. For every venue type string, \<open>return_if_venue_has_streaming\<close> is true exactly when
  the string contains \<open>stream\<close> with the case of the letters ignored; it is true for
  \<open>In-person & Streaming (Digital Concert Hall)\<close> and false for \<open>In-person only\<close>.
\<close>

theorem C8_streaming_iff_contains_stream:
  "(return_if_venue_has_streaming v \<longleftrightarrow> mentions_stream v)
   \<and> return_if_venue_has_streaming ''In-person & Streaming (Digital Concert Hall)''
   \<and> \<not> return_if_venue_has_streaming ''In-person only''"
  using streaming_iff_mentions streaming_known_venues by simp

theorem C8_streaming_witness:
  "return_if_venue_has_streaming ''Digital Concert Hall - Live STREAM only''
   \<and> mentions_stream ''Digital Concert Hall - Live STREAM only''"
proof -
  have "return_if_venue_has_streaming ''Digital Concert Hall - Live STREAM only''"
    by (simp add: return_if_venue_has_streaming_def lower_def lower_char_def eq_char_of_iff)
  with C8_streaming_iff_contains_stream [of "''Digital Concert Hall - Live STREAM only''"]
  show ?thesis by simp
qed

text \<open>
  C1. \<open>extract_ticket_price_options\<close> groups the rows in order. It returns a mapping
  exactly when every row parses and the first row, if there is one, has an anchor whose
  href starts with \<open>/event\<close>; a row has a key exactly when one of its anchors has such an
  href, and the key is that href. Whenever a mapping \<open>m\<close> is returned, the entry of every
  key \<open>K\<close> is made of the values of the first row that introduces \<open>K\<close> followed by the values
  of every continuation row whose most recently seen key is \<open>K\<close> (\<open>group_rows\<close>; a later
  row that introduces \<open>K\<close> again adds nothing), and the keys of \<open>m\<close> are exactly the keys the
  rows introduce, each once. For three rows \<open>R1\<close> (key \<open>K1\<close>, price 10), \<open>R2\<close> (no key,
  price 5), \<open>R3\<close> (key \<open>K2\<close>, price 20) the result has exactly the keys \<open>K1\<close> and \<open>K2\<close>,
  with the price lists \<open>[10, 5]\<close> and \<open>[20]\<close>. When the second row repeats the key of the
  first, it is skipped and a continuation row after it goes to that key.
\<close>

theorem C1_rows_grouped_by_key:
  "(extract_ticket_price_options rows = Inr m \<longrightarrow>
      (\<forall>K. map_of m K = map_option lists_of (group_rows K (parsed_rows rows)))
      \<and> distinct (map fst m)
      \<and> set (map fst m) = {k. \<exists>r \<in> set rows. select_one_event r = Some k})
   \<and> (select_one_event r1 = Some K1 \<and> select_one_event r2 = None
        \<and> select_one_event r3 = Some K2 \<and> K1 \<noteq> K2
        \<and> row_ticket_data r1 = Inr d1 \<and> row_ticket_data r2 = Inr d2
        \<and> row_ticket_data r3 = Inr d3
        \<and> ticket_price_gbp d1 = 10 \<and> ticket_price_gbp d2 = 5 \<and> ticket_price_gbp d3 = 20 \<longrightarrow>
      (\<exists>l1 l2. extract_ticket_price_options [r1, r2, r3] = Inr [(K1, l1), (K2, l2)]
         \<and> ticket_price_gbp l1 = [10, 5] \<and> ticket_price_gbp l2 = [20]))
   \<and> ((\<exists>m'. extract_ticket_price_options rows = Inr m') \<longleftrightarrow>
        (\<forall>r \<in> set rows. \<exists>d. row_ticket_data r = Inr d)
        \<and> (rows = [] \<or> select_one_event (hd rows) \<noteq> None))
   \<and> (select_one_event r = None \<longleftrightarrow> (\<forall>h \<in> set (anchor_hrefs r). \<not> prefix ''/event'' h))
   \<and> (select_one_event r = Some k \<longrightarrow> k \<in> set (anchor_hrefs r) \<and> prefix ''/event'' k)
   \<and> (select_one_event r1 = Some K1 \<and> select_one_event r2 = Some K1
        \<and> select_one_event r3 = None
        \<and> row_ticket_data r1 = Inr d1 \<and> row_ticket_data r2 = Inr d2
        \<and> row_ticket_data r3 = Inr d3 \<longrightarrow>
      extract_ticket_price_options [r1, r2, r3] = Inr [(K1, lists_of [d1, d3])])"
proof (intro conjI)
  show "extract_ticket_price_options rows = Inr m \<longrightarrow>
      (\<forall>K. map_of m K = map_option lists_of (group_rows K (parsed_rows rows)))
      \<and> distinct (map fst m)
      \<and> set (map fst m) = {k. \<exists>r \<in> set rows. select_one_event r = Some k}"
    using rows_grouped_general by blast
  show "select_one_event r1 = Some K1 \<and> select_one_event r2 = None
        \<and> select_one_event r3 = Some K2 \<and> K1 \<noteq> K2
        \<and> row_ticket_data r1 = Inr d1 \<and> row_ticket_data r2 = Inr d2
        \<and> row_ticket_data r3 = Inr d3
        \<and> ticket_price_gbp d1 = 10 \<and> ticket_price_gbp d2 = 5 \<and> ticket_price_gbp d3 = 20 \<longrightarrow>
      (\<exists>l1 l2. extract_ticket_price_options [r1, r2, r3] = Inr [(K1, l1), (K2, l2)]
         \<and> ticket_price_gbp l1 = [10, 5] \<and> ticket_price_gbp l2 = [20])"
    using rows_grouped_three by blast
  show "(\<exists>m'. extract_ticket_price_options rows = Inr m') \<longleftrightarrow>
        (\<forall>r \<in> set rows. \<exists>d. row_ticket_data r = Inr d)
        \<and> (rows = [] \<or> select_one_event (hd rows) \<noteq> None)"
    by (rule extract_returns_iff)
  show "select_one_event r = None \<longleftrightarrow> (\<forall>h \<in> set (anchor_hrefs r). \<not> prefix ''/event'' h)"
    by (rule select_one_event_None_iff)
  show "select_one_event r = Some k \<longrightarrow> k \<in> set (anchor_hrefs r) \<and> prefix ''/event'' k"
    using select_one_event_Some by blast
  show "select_one_event r1 = Some K1 \<and> select_one_event r2 = Some K1
        \<and> select_one_event r3 = None
        \<and> row_ticket_data r1 = Inr d1 \<and> row_ticket_data r2 = Inr d2
        \<and> row_ticket_data r3 = Inr d3 \<longrightarrow>
      extract_ticket_price_options [r1, r2, r3] = Inr [(K1, lists_of [d1, d3])]"
    using extract_repeated_key by blast
qed

theorem C1_example_rows_witness:
  "\<exists>m. extract_ticket_price_options example_rows = Inr m
       \<and> map fst m = [''/event/1'', ''/event/2'']
       \<and> map_option ticket_price_gbp (map_of m ''/event/1'') = Some [10, 5]
       \<and> map_option ticket_price_gbp (map_of m ''/event/2'') = Some [20]
       \<and> (\<forall>K. map_of m K = map_option lists_of (group_rows K (parsed_rows example_rows)))
       \<and> map_option ticket_price_gbp
            (map_of (projr (extract_ticket_price_options
                              [hd example_rows, hd example_rows, example_rows ! 1]))
               ''/event/1'') = Some [10, 5]"
proof -
  let ?r1 = "\<lparr>anchor_hrefs = [''/event/1''], td_texts = ['''', '''', example_cell, pound # ''10'']\<rparr>"
  let ?r2 = "\<lparr>anchor_hrefs = [], td_texts = ['''', '''', example_cell, pound # ''5'']\<rparr>"
  let ?r3 = "\<lparr>anchor_hrefs = [''/event/2''], td_texts = ['''', '''', example_cell, pound # ''20'']\<rparr>"
  let ?d = "\<lambda>n. \<lparr>ticket_type = ''Standard'', venue_type = ''In-person only'',
                 is_streaming = False, ticket_price_gbp = n\<rparr>"
  obtain m where m: "extract_ticket_price_options example_rows = Inr m"
    using extract_example_rows by blast
  note t = C1_rows_grouped_by_key [of example_rows m ?r1 "''/event/1''" ?r2 ?r3 "''/event/2''"
      "?d 10" "?d 5" "?d 20"]
  note u = C1_rows_grouped_by_key [of example_rows m ?r1 "''/event/1''" ?r1 ?r2 "''/event/2''"
      "?d 10" "?d 10" "?d 5"]
  have keys: "select_one_event ?r1 = Some ''/event/1''" "select_one_event ?r2 = None"
    "select_one_event ?r3 = Some ''/event/2''"
    by (simp_all add: select_one_event_def)
  have data: "row_ticket_data ?r1 = Inr (?d 10)" "row_ticket_data ?r2 = Inr (?d 5)"
    "row_ticket_data ?r3 = Inr (?d 20)"
    by (simp_all add: row_ticket_data_example parse_price_small)
  from t [THEN conjunct1] m have groups:
    "\<forall>K. map_of m K = map_option lists_of (group_rows K (parsed_rows example_rows))"
    by blast
  from t [THEN conjunct2, THEN conjunct1] keys data obtain l1 l2 where
    "extract_ticket_price_options [?r1, ?r2, ?r3] = Inr [(''/event/1'', l1), (''/event/2'', l2)]"
    "ticket_price_gbp l1 = [10, 5]" "ticket_price_gbp l2 = [20]"
    by auto
  with m have three: "map fst m = [''/event/1'', ''/event/2'']"
    "map_option ticket_price_gbp (map_of m ''/event/1'') = Some [10, 5]"
    "map_option ticket_price_gbp (map_of m ''/event/2'') = Some [20]"
    by (auto simp: example_rows_def)
  from u [THEN conjunct2, THEN conjunct2, THEN conjunct2, THEN conjunct2, THEN conjunct2]
    keys(1,2) data(1,2)
  have "extract_ticket_price_options [?r1, ?r1, ?r2] =
          Inr [(''/event/1'', lists_of [?d 10, ?d 5])]"
    by simp
  then have rep: "map_option ticket_price_gbp
            (map_of (projr (extract_ticket_price_options
                              [hd example_rows, hd example_rows, example_rows ! 1]))
               ''/event/1'') = Some [10, 5]"
    by (simp add: example_rows_def lists_of_def)
  from m groups three rep show ?thesis by (intro exI [of _ m]) simp
qed

text \<open>
  C6, as the claim states it, fails: the price \<open>\<pounds>0.99999999999999999999\<close> gives 1, since
  \<open>float()\<close> rounds the decimal to the nearest binary64 value, which here is 1.0, before
  \<open>int()\<close> truncates; cutting the decimal fraction off would give 0.
\<close>

theorem C6_long_fraction_rounds_up_counterexample:
  "parse_price (pound # ''0.99999999999999999999'') = Inr 1"
  by (rule parse_price_nines)

text \<open>
  C6, amended. The price of a row is \<open>int(float(text))\<close> of the stripped cell with its pound
  signs removed: the text is read as the nearest binary64 value, which is then truncated.
  When what remains of the cell is a run of digits \<open>ip\<close>, or \<open>ip\<close>, a point and a run of
  digits \<open>fp\<close>, and the number \<open>I\<close> that \<open>ip\<close> writes leaves room in the 53 bits of a float,
  \<open>(I + 1) \<cdot> 10 ^ length fp \<le> 2 ^ 53\<close>, the result is \<open>I\<close>: the fraction is cut off, not
  rounded. Every price with at most 15 digits in all leaves that room. The number that a
  run of digits writes is its decimal value: the digits of \<open>str(n)\<close> write \<open>n\<close>.
  \<open>\<pounds>12.50\<close> gives 12 and \<open>\<pounds>9\<close> gives 9.
\<close>

theorem C6_price_truncated:
  "(ip \<noteq> [] \<and> (\<forall>c \<in> set ip. is_digit c) \<and> (\<forall>c \<in> set fp. is_digit c) \<longrightarrow>
      (filter (\<lambda>c. c \<noteq> pound) (strip text) = ip \<and> nat_of_digits ip + 1 \<le> 2 ^ 53 \<longrightarrow>
         parse_price text = Inr (int (nat_of_digits ip)))
      \<and> (filter (\<lambda>c. c \<noteq> pound) (strip text) = ip @ CHR ''.'' # fp
           \<and> (nat_of_digits ip + 1) * 10 ^ length fp \<le> 2 ^ 53 \<longrightarrow>
         parse_price text = Inr (int (nat_of_digits ip)))
      \<and> (length ip + length fp \<le> 15 \<longrightarrow>
           nat_of_digits ip + 1 \<le> 2 ^ 53
           \<and> (nat_of_digits ip + 1) * 10 ^ length fp \<le> 2 ^ 53))
   \<and> str_nat n \<noteq> [] \<and> (\<forall>c \<in> set (str_nat n). is_digit c) \<and> nat_of_digits (str_nat n) = n
   \<and> parse_price (pound # ''12.50'') = Inr 12
   \<and> parse_price (pound # ''9'') = Inr 9"
proof (intro conjI impI)
  assume h: "ip \<noteq> [] \<and> (\<forall>c \<in> set ip. is_digit c) \<and> (\<forall>c \<in> set fp. is_digit c)"
  then have ip: "ip \<noteq> []" "\<forall>c \<in> set ip. is_digit c" and fp: "\<forall>c \<in> set fp. is_digit c"
    by simp_all
  {
    assume "filter (\<lambda>c. c \<noteq> pound) (strip text) = ip \<and> nat_of_digits ip + 1 \<le> 2 ^ 53"
    then show "parse_price text = Inr (int (nat_of_digits ip))"
      using parse_price_filtered(1) [OF ip fp] by blast
  }
  {
    assume "filter (\<lambda>c. c \<noteq> pound) (strip text) = ip @ CHR ''.'' # fp
           \<and> (nat_of_digits ip + 1) * 10 ^ length fp \<le> 2 ^ 53"
    then show "parse_price text = Inr (int (nat_of_digits ip))"
      using parse_price_filtered(2) [OF ip fp] by blast
  }
  {
    assume len: "length ip + length fp \<le> 15"
    then have "length ip + 0 \<le> 15" by simp
    from digits_room [OF ip(2) this] show "nat_of_digits ip + 1 \<le> 2 ^ 53" by simp
    from digits_room [OF ip(2) len] show "(nat_of_digits ip + 1) * 10 ^ length fp \<le> 2 ^ 53" .
  }
next
  show "str_nat n \<noteq> []" using str_nat_facts by blast
  show "\<forall>c \<in> set (str_nat n). is_digit c" using str_nat_facts by blast
  show "nat_of_digits (str_nat n) = n" using str_nat_facts by blast
  show "parse_price (pound # ''12.50'') = Inr 12" by (rule parse_price_pence(1))
  show "parse_price (pound # ''9'') = Inr 9" by (rule parse_price_small(4))
qed

theorem C6_price_truncated_witness:
  "parse_price ('' '' @ pound # ''12.99 '') = Inr 12 \<and> parse_price (pound # ''12'') = Inr 12
   \<and> nat_of_digits (str_nat 12) = 12"
proof -
  have f1: "filter (\<lambda>c. c \<noteq> pound) (strip ('' '' @ pound # ''12.99 '')) = ''12'' @ CHR ''.'' # ''99''"
    by (simp add: strip_def lstrip_def rstrip_def isspace_def pound_def)
  have f2: "filter (\<lambda>c. c \<noteq> pound) (strip (pound # ''12'')) = ''12''"
    by (simp add: strip_def lstrip_def rstrip_def isspace_def pound_def)
  have n: "nat_of_digits ''12'' = 12" by (simp add: nat_of_digits_def digit_val_def)
  have d: "''12'' \<noteq> [] \<and> (\<forall>c \<in> set ''12''. is_digit c) \<and> (\<forall>c \<in> set ''99''. is_digit c)"
    by (simp add: is_digit_range)
  have room: "nat_of_digits ''12'' + 1 \<le> 2 ^ 53"
    "(nat_of_digits ''12'' + 1) * 10 ^ length ''99'' \<le> 2 ^ 53"
    by (simp_all add: n)
  note a = C6_price_truncated [of "''12''" "''99''" "'' '' @ pound # ''12.99 ''" 12]
  note b = C6_price_truncated [of "''12''" "''99''" "pound # ''12''" 12]
  from a [THEN conjunct1] d f1 room(2)
  have "parse_price ('' '' @ pound # ''12.99 '') = Inr (int (nat_of_digits ''12''))" by blast
  moreover from b [THEN conjunct1] d f2 room(1)
  have "parse_price (pound # ''12'') = Inr (int (nat_of_digits ''12''))" by blast
  moreover from a have "nat_of_digits (str_nat 12) = 12" by blast
  ultimately show ?thesis by (simp add: n)
qed

text \<open>
  C9. The four lists stored under a key always have the same length, and at least one
  entry. Every step of the loop that returns (seeding a new key, skipping a repeated key,
  appending a continuation row) keeps this true of the accumulator, and so it is true of
  every key of a mapping that \<open>extract_ticket_price_options\<close> returns.
\<close>

theorem C9_ticket_lists_aligned:
  "(ticket_details_ok td \<and> ticket_row_step r (td, cur) = Inr (td', cur') \<longrightarrow>
      ticket_details_ok td')
   \<and> (extract_ticket_price_options rows = Inr m \<longrightarrow>
        (\<forall>k l. (k, l) \<in> set m \<longrightarrow>
           length (venue_type l) = length (ticket_type l)
           \<and> length (is_streaming l) = length (ticket_type l)
           \<and> length (ticket_price_gbp l) = length (ticket_type l)
           \<and> 1 \<le> length (ticket_type l)))"
proof (rule conjI)
  show "ticket_details_ok td \<and> ticket_row_step r (td, cur) = Inr (td', cur') \<longrightarrow>
      ticket_details_ok td'"
    using step_preserves_ok by blast
next
  show "extract_ticket_price_options rows = Inr m \<longrightarrow>
        (\<forall>k l. (k, l) \<in> set m \<longrightarrow>
           length (venue_type l) = length (ticket_type l)
           \<and> length (is_streaming l) = length (ticket_type l)
           \<and> length (ticket_price_gbp l) = length (ticket_type l)
           \<and> 1 \<le> length (ticket_type l))"
  proof (intro impI allI)
    fix k l
    assume "extract_ticket_price_options rows = Inr m" "(k, l) \<in> set m"
    then have "lists_aligned l" using extract_ok ticket_details_ok_iff by blast
    then show "length (venue_type l) = length (ticket_type l)
           \<and> length (is_streaming l) = length (ticket_type l)
           \<and> length (ticket_price_gbp l) = length (ticket_type l)
           \<and> 1 \<le> length (ticket_type l)"
      by (simp add: lists_aligned_def)
  qed
qed

theorem C9_ticket_lists_aligned_witness:
  "\<exists>m l. extract_ticket_price_options example_rows = Inr m \<and> (''/event/1'', l) \<in> set m
     \<and> length (ticket_price_gbp l) = length (ticket_type l) \<and> length (ticket_type l) = 2
     \<and> ticket_details_ok m"
proof -
  obtain m where m: "extract_ticket_price_options example_rows = Inr m"
    using extract_example_rows by blast
  then have "ticket_rows_loop example_rows ([], []) = Inr m"
    by (simp add: extract_ticket_price_options_def)
  then obtain st where st: "ticket_row_step (hd example_rows) ([], []) = Inr st"
    and rest: "ticket_rows_loop (tl example_rows) st = Inr m"
    by (auto simp: example_rows_def split: sum.splits)
  obtain l where l: "(''/event/1'', l) \<in> set m" "length (ticket_type l) = 2"
    using m extract_example_rows by auto
  note t = C9_ticket_lists_aligned [of "[]" "hd example_rows" "[]" "fst st" "snd st" example_rows m]
  have "ticket_details_ok []" by (simp add: ticket_details_ok_def)
  with t st have "ticket_details_ok (fst st)" by simp
  moreover from rest have "ticket_rows_loop (tl example_rows) (fst st, snd st) = Inr m" by simp
  ultimately have "ticket_details_ok m" by (rule loop_preserves_ok [rotated])
  moreover from t m l have "length (ticket_price_gbp l) = length (ticket_type l)" by blast
  ultimately show ?thesis using m l by blast
qed

text \<open>
  C10, as the claim states it, fails: a first row without an \<open>/event\<close> anchor whose price
  cell is not a number makes the function raise \<open>ValueError\<close>, which is not a lookup error,
  because the cells of a row are parsed before the row is grouped.
\<close>

theorem C10_first_row_not_lookup_error_counterexample:
  "select_one_event \<lparr>anchor_hrefs = [], td_texts = ['''', '''', example_cell, ''free'']\<rparr> = None
   \<and> extract_ticket_price_options
        [\<lparr>anchor_hrefs = [], td_texts = ['''', '''', example_cell, ''free'']\<rparr>] = Inl ValueError"
  by (simp add: select_one_event_def first_row_continuation row_ticket_data_free)

text \<open>
  C10, amended. For a row list whose first row has no \<open>/event\<close> anchor the function never
  returns a mapping. If the cells of that row do not parse, it raises the error of parsing
  them, which is \<open>IndexError\<close>, \<open>ValueError\<close> or \<open>OverflowError\<close>, since the cells of a row are
  parsed before the row is grouped. Otherwise it raises \<open>KeyError\<close> for the empty string, the
  initial value of the last seen key, which the empty mapping does not hold.
\<close>

theorem C10_first_row_continuation_raises:
  "select_one_event r = None \<longrightarrow>
     (\<exists>e. extract_ticket_price_options (r # rs) = Inl e)
     \<and> (\<forall>d. row_ticket_data r = Inr d \<longrightarrow>
            extract_ticket_price_options (r # rs) = Inl (KeyError []))
     \<and> (\<forall>e. row_ticket_data r = Inl e \<longrightarrow>
            extract_ticket_price_options (r # rs) = Inl e
            \<and> (e = IndexError \<or> e = ValueError \<or> e = OverflowError))"
proof
  assume "select_one_event r = None"
  from first_row_continuation [OF this, of rs] row_ticket_data_errors [of r]
  show "(\<exists>e. extract_ticket_price_options (r # rs) = Inl e)
     \<and> (\<forall>d. row_ticket_data r = Inr d \<longrightarrow>
            extract_ticket_price_options (r # rs) = Inl (KeyError []))
     \<and> (\<forall>e. row_ticket_data r = Inl e \<longrightarrow>
            extract_ticket_price_options (r # rs) = Inl e
            \<and> (e = IndexError \<or> e = ValueError \<or> e = OverflowError))"
    by (cases "row_ticket_data r") simp_all
qed

theorem C10_first_row_continuation_witness:
  "extract_ticket_price_options (tl example_rows) = Inl (KeyError [])"
proof -
  let ?r2 = "\<lparr>anchor_hrefs = [], td_texts = ['''', '''', example_cell, pound # ''5'']\<rparr>"
  have tl: "tl example_rows = ?r2 # tl (tl example_rows)" by (simp add: example_rows_def)
  have k: "select_one_event ?r2 = None" by (simp add: select_one_event_def)
  have d: "row_ticket_data ?r2 = Inr \<lparr>ticket_type = ''Standard'', venue_type = ''In-person only'',
             is_streaming = False, ticket_price_gbp = 5\<rparr>"
    by (simp add: row_ticket_data_example parse_price_small)
  from C10_first_row_continuation_raises [of ?r2 "tl (tl example_rows)"] k d
  have "extract_ticket_price_options (?r2 # tl (tl example_rows)) = Inl (KeyError [])" by blast
  then show ?thesis by (simp only: tl [symmetric])
qed

text \<open>
  C4. When the CSV file is written and the write of the HTML file raises an \<open>OSError\<close> with
  text \<open>e\<close>, the one line printed names the CSV file, \<open>oxford_lieder-2021-ticket_list.csv\<close>,
  as the file that could not be exported, followed by \<open>e\<close>; the path of the HTML file, whose
  write failed, is not part of the report, and no success line is printed. A failure of the
  CSV write prints the same line, whatever the HTML write would do, and when both writes
  succeed the two success lines with the row and column counts and the absolute paths are
  printed.
\<close>

theorem C4_html_failure_reported_as_csv:
  "export_report abspath num_rows num_cols None (Some e) =
     [''There was an error exporting oxford_lieder-2021-ticket_list.csv: '' @ e]
   \<and> export_report abspath num_rows num_cols (Some e) html_error =
     [''There was an error exporting oxford_lieder-2021-ticket_list.csv: '' @ e]
   \<and> export_report abspath num_rows num_cols None None =
     [''CSV export succeeded ['' @ str_nat num_rows @ '' rows, '' @ str_nat num_cols
        @ '' columns]: '' @ abspath ''oxford_lieder-2021-ticket_list.csv'',
      ''HTML export succeeded ['' @ str_nat num_rows @ '' rows, '' @ str_nat num_cols
        @ '' columns]: '' @ abspath ''oxford_lieder-2021-ticket_list.html'']"
  by (simp add: export_report_def EXPORT_FILE_BASE_def)




text \<open>
  C2. The merge returns a frame exactly when the ticket frame has the four ticket columns.
  A row of the result pairs an event record of the event frame with the cells of a ticket
  row that has the key of the record, and there are no other rows. The rows that carry an
  event record \<open>e\<close> are, for each occurrence of \<open>e\<close> in the event frame, one row per ticket
  option under the key of \<open>e\<close>, in the order of the options: an event record that occurs once
  and whose key has \<open>N\<close> options has exactly \<open>N\<close> rows. An event record whose key has no
  ticket option has no row, and a key that no event record has is the key of no row. With
  the mapping that \<open>extract_ticket_price_options\<close> returns, when it is not empty, the ticket
  frame and the merge exist, the options under a key of the mapping are the \<open>N \<ge> 1\<close>
  positions of its four lists, and an event record whose key the mapping lacks has no row.
\<close>

theorem C2_merge_is_inner_join:
  "((\<exists>merged. merged_df event_df tickets = Some merged) \<longleftrightarrow>
      set TICKET_METADATA_COLUMNS \<subseteq> set (ticket_columns tickets))
   \<and> (merged_df event_df tickets = Some merged \<longrightarrow>
        ((e, c) \<in> set merged \<longleftrightarrow>
           e \<in> set event_df \<and> (short_url e, c) \<in> set (ticket_rows tickets))
        \<and> filter (\<lambda>r. fst r = e) merged =
            concat (replicate (count_list event_df e)
                      (map (Pair e) (options_with_key (short_url e) tickets)))
        \<and> length (filter (\<lambda>r. fst r = e) merged) =
            count_list event_df e * length (options_with_key (short_url e) tickets)
        \<and> (options_with_key (short_url e) tickets = [] \<longrightarrow> filter (\<lambda>r. fst r = e) merged = [])
        \<and> ((\<forall>e' \<in> set event_df. short_url e' \<noteq> K) \<longrightarrow>
              filter (\<lambda>r. short_url (fst r) = K) merged = []))
   \<and> (extract_ticket_price_options rs = Inr m \<and> m \<noteq> [] \<longrightarrow>
        (\<exists>f rows. ticket_df m = Some f \<and> merged_df event_df f = Some rows
           \<and> (\<forall>l. map_of m (short_url e) = Some l \<longrightarrow>
                  1 \<le> length (ticket_price_gbp l)
                  \<and> filter (\<lambda>r. fst r = e) rows =
                      concat (replicate (count_list event_df e)
                                (map (\<lambda>i. (e, cells_at l i)) [0 ..< length (ticket_price_gbp l)])))
           \<and> (map_of m (short_url e) = None \<longrightarrow> filter (\<lambda>r. fst r = e) rows = [])))"
proof (intro conjI)
  show "(\<exists>merged. merged_df event_df tickets = Some merged) \<longleftrightarrow>
      set TICKET_METADATA_COLUMNS \<subseteq> set (ticket_columns tickets)"
    by (rule merged_df_returns)
next
  show "merged_df event_df tickets = Some merged \<longrightarrow>
        ((e, c) \<in> set merged \<longleftrightarrow>
           e \<in> set event_df \<and> (short_url e, c) \<in> set (ticket_rows tickets))
        \<and> filter (\<lambda>r. fst r = e) merged =
            concat (replicate (count_list event_df e)
                      (map (Pair e) (options_with_key (short_url e) tickets)))
        \<and> length (filter (\<lambda>r. fst r = e) merged) =
            count_list event_df e * length (options_with_key (short_url e) tickets)
        \<and> (options_with_key (short_url e) tickets = [] \<longrightarrow> filter (\<lambda>r. fst r = e) merged = [])
        \<and> ((\<forall>e' \<in> set event_df. short_url e' \<noteq> K) \<longrightarrow>
              filter (\<lambda>r. short_url (fst r) = K) merged = [])"
  proof
    assume "merged_df event_df tickets = Some merged"
    note rows = merged_df_rows [OF this]
    have of_e: "filter (\<lambda>r. fst r = e) merged =
        concat (replicate (count_list event_df e)
                  (map (Pair e) (options_with_key (short_url e) tickets)))"
      unfolding rows options_with_key_def by (rule joined_rows_of_event)
    have len: "length (concat (replicate n xs)) = n * length xs" for n and xs :: "'z list"
      by (induction n) simp_all
    show "((e, c) \<in> set merged \<longleftrightarrow>
           e \<in> set event_df \<and> (short_url e, c) \<in> set (ticket_rows tickets))
        \<and> filter (\<lambda>r. fst r = e) merged =
            concat (replicate (count_list event_df e)
                      (map (Pair e) (options_with_key (short_url e) tickets)))
        \<and> length (filter (\<lambda>r. fst r = e) merged) =
            count_list event_df e * length (options_with_key (short_url e) tickets)
        \<and> (options_with_key (short_url e) tickets = [] \<longrightarrow> filter (\<lambda>r. fst r = e) merged = [])
        \<and> ((\<forall>e' \<in> set event_df. short_url e' \<noteq> K) \<longrightarrow>
              filter (\<lambda>r. short_url (fst r) = K) merged = [])"
    proof (intro conjI impI)
      show "(e, c) \<in> set merged \<longleftrightarrow>
           e \<in> set event_df \<and> (short_url e, c) \<in> set (ticket_rows tickets)"
        unfolding rows by (rule joined_rows_member)
      show "filter (\<lambda>r. fst r = e) merged =
            concat (replicate (count_list event_df e)
                      (map (Pair e) (options_with_key (short_url e) tickets)))"
        by (rule of_e)
      show "length (filter (\<lambda>r. fst r = e) merged) =
            count_list event_df e * length (options_with_key (short_url e) tickets)"
        by (simp only: of_e len length_map)
      show "filter (\<lambda>r. fst r = e) merged = []"
        if "options_with_key (short_url e) tickets = []"
        by (simp only: of_e that list.map) (induction "count_list event_df e", simp_all)
      show "filter (\<lambda>r. short_url (fst r) = K) merged = []"
        if "\<forall>e' \<in> set event_df. short_url e' \<noteq> K"
        unfolding rows by (rule joined_rows_no_event [OF that])
    qed
  qed
next
  show "extract_ticket_price_options rs = Inr m \<and> m \<noteq> [] \<longrightarrow>
        (\<exists>f rows. ticket_df m = Some f \<and> merged_df event_df f = Some rows
           \<and> (\<forall>l. map_of m (short_url e) = Some l \<longrightarrow>
                  1 \<le> length (ticket_price_gbp l)
                  \<and> filter (\<lambda>r. fst r = e) rows =
                      concat (replicate (count_list event_df e)
                                (map (\<lambda>i. (e, cells_at l i)) [0 ..< length (ticket_price_gbp l)])))
           \<and> (map_of m (short_url e) = None \<longrightarrow> filter (\<lambda>r. fst r = e) rows = []))"
  proof
    assume a: "extract_ticket_price_options rs = Inr m \<and> m \<noteq> []"
    then have ex: "extract_ticket_price_options rs = Inr m" and ne: "m \<noteq> []" by simp_all
    define f where "f = \<lparr>ticket_columns = ''short_url'' # TICKET_METADATA_COLUMNS,
                         ticket_rows = concat (map (\<lambda>(k, l). entry_rows k l) m)\<rparr>"
    have f: "ticket_df m = Some f"
      using ticket_df_of_extract [OF ex] ne by (simp add: f_def)
    have "set TICKET_METADATA_COLUMNS \<subseteq> set (ticket_columns f)" by (auto simp: f_def)
    then obtain rows where rows: "merged_df event_df f = Some rows"
      using merged_df_returns [of event_df f] by blast
    have opts: "options_with_key (short_url e) f =
        (case map_of m (short_url e) of None \<Rightarrow> [] | Some l \<Rightarrow> map snd (entry_rows (short_url e) l))"
      using filter_exploded_rows [OF extract_distinct_keys [OF ex], of "short_url e"]
      by (simp add: options_with_key_def f_def split: option.splits)
    have of_e: "filter (\<lambda>r. fst r = e) rows =
        concat (replicate (count_list event_df e)
                  (map (Pair e) (options_with_key (short_url e) f)))"
      unfolding merged_df_rows [OF rows] options_with_key_def by (rule joined_rows_of_event)
    have some: "\<forall>l. map_of m (short_url e) = Some l \<longrightarrow>
          1 \<le> length (ticket_price_gbp l)
          \<and> filter (\<lambda>r. fst r = e) rows =
              concat (replicate (count_list event_df e)
                        (map (\<lambda>i. (e, cells_at l i)) [0 ..< length (ticket_price_gbp l)]))"
    proof (intro allI impI)
      fix l
      assume l: "map_of m (short_url e) = Some l"
      from extract_entry_not_empty [OF ex l] have n: "ticket_price_gbp l \<noteq> []" .
      then have "1 \<le> length (ticket_price_gbp l)" by (cases "ticket_price_gbp l") simp_all
      moreover have "map (Pair e) (options_with_key (short_url e) f) =
          map (\<lambda>i. (e, cells_at l i)) [0 ..< length (ticket_price_gbp l)]"
        by (simp add: opts l entry_rows_not_empty [OF n] comp_def)
      ultimately show "1 \<le> length (ticket_price_gbp l)
          \<and> filter (\<lambda>r. fst r = e) rows =
              concat (replicate (count_list event_df e)
                        (map (\<lambda>i. (e, cells_at l i)) [0 ..< length (ticket_price_gbp l)]))"
        by (simp only: of_e)
    qed
    have none: "map_of m (short_url e) = None \<longrightarrow> filter (\<lambda>r. fst r = e) rows = []"
      by (simp add: of_e opts)
    show "\<exists>f rows. ticket_df m = Some f \<and> merged_df event_df f = Some rows
           \<and> (\<forall>l. map_of m (short_url e) = Some l \<longrightarrow>
                  1 \<le> length (ticket_price_gbp l)
                  \<and> filter (\<lambda>r. fst r = e) rows =
                      concat (replicate (count_list event_df e)
                                (map (\<lambda>i. (e, cells_at l i)) [0 ..< length (ticket_price_gbp l)])))
           \<and> (map_of m (short_url e) = None \<longrightarrow> filter (\<lambda>r. fst r = e) rows = [])"
      by (rule exI [of _ f], rule exI [of _ rows]) (intro conjI f rows some none)
  qed
qed

theorem C2_merge_witness:
  "\<exists>f rows. ticket_df example_ticket_details = Some f
     \<and> merged_df example_event_df f = Some rows
     \<and> filter (\<lambda>r. fst r = example_event ''Recital A'' ''/event/1'') rows =
         [(example_event ''Recital A'' ''/event/1'',
           \<lparr>ticket_type = PStr ''Standard'', venue_type = PStr ''In-person only'',
            is_streaming = PBool False, ticket_price_gbp = PInt 10\<rparr>),
          (example_event ''Recital A'' ''/event/1'',
           \<lparr>ticket_type = PStr ''Standard'', venue_type = PStr ''In-person only'',
            is_streaming = PBool False, ticket_price_gbp = PInt 5\<rparr>)]
     \<and> filter (\<lambda>r. fst r = example_event ''Recital B'' ''/event/9'') rows = []
     \<and> filter (\<lambda>r. short_url (fst r) = ''/event/2'') rows = []"
proof -
  let ?A = "example_event ''Recital A'' ''/event/1''"
  let ?B = "example_event ''Recital B'' ''/event/9''"
  let ?l = "\<lparr>ticket_type = [''Standard'', ''Standard''],
             venue_type = [''In-person only'', ''In-person only''],
             is_streaming = [False, False], ticket_price_gbp = [10, 5]\<rparr>"
  have ex: "extract_ticket_price_options example_rows = Inr example_ticket_details
      \<and> example_ticket_details \<noteq> []"
    by (simp add: extract_example_details) (simp add: example_ticket_details_def)
  from C2_merge_is_inner_join [of example_event_df _ _ ?A _ _ example_rows example_ticket_details,
      THEN conjunct2, THEN conjunct2, THEN mp, OF ex]
  obtain f rows where f: "ticket_df example_ticket_details = Some f"
    and rows: "merged_df example_event_df f = Some rows"
    and some: "\<forall>l. map_of example_ticket_details (short_url ?A) = Some l \<longrightarrow>
          1 \<le> length (ticket_price_gbp l)
          \<and> filter (\<lambda>r. fst r = ?A) rows =
              concat (replicate (count_list example_event_df ?A)
                        (map (\<lambda>i. (?A, cells_at l i)) [0 ..< length (ticket_price_gbp l)]))"
    by blast
  have l: "map_of example_ticket_details (short_url ?A) = Some ?l"
    by (simp add: example_ticket_details_def example_event_def)
  have once: "count_list example_event_df ?A = 1"
    by (simp add: example_event_df_def example_event_def)
  from some [rule_format, OF l]
  have rA: "filter (\<lambda>r. fst r = ?A) rows =
      [(?A, \<lparr>ticket_type = PStr ''Standard'', venue_type = PStr ''In-person only'',
             is_streaming = PBool False, ticket_price_gbp = PInt 10\<rparr>),
       (?A, \<lparr>ticket_type = PStr ''Standard'', venue_type = PStr ''In-person only'',
             is_streaming = PBool False, ticket_price_gbp = PInt 5\<rparr>)]"
    by (simp add: once cells_at_def upt_rec)
  note t = C2_merge_is_inner_join [of example_event_df f rows ?B _ "''/event/2''",
      THEN conjunct2, THEN conjunct1, THEN mp, OF rows]
  from f have "Some f = ticket_df example_ticket_details" by simp
  then have f_eq: "options_with_key (short_url ?B) f = []"
    unfolding ticket_df_example by (simp add: options_with_key_def example_event_def)
  have no_event: "\<forall>e' \<in> set example_event_df. short_url e' \<noteq> ''/event/2''"
    by (simp add: example_event_df_def example_event_def)
  from t [THEN conjunct2, THEN conjunct2, THEN conjunct2, THEN conjunct1, THEN mp, OF f_eq]
  have rB: "filter (\<lambda>r. fst r = ?B) rows = []" .
  from t [THEN conjunct2, THEN conjunct2, THEN conjunct2, THEN conjunct2, THEN mp, OF no_event]
  have rK: "filter (\<lambda>r. short_url (fst r) = ''/event/2'') rows = []" .
  from f rows rA rB rK show ?thesis by blast
qed

end
